theory Spec2Isabelle
  imports Main "HOL-Library.Word" "HOL-Library.Sublist" "HOL-Library.Multiset"
begin

section \<open>Data model\<close>

text \<open>
  The program keeps an ordered array of tracks.  A C string is the list of its characters
  before the terminating NUL; a C \<^verbatim>\<open>int\<close> is a 32-bit word read in two's complement
  (\<open>sint\<close>).  The playlist is the list of the first \<^verbatim>\<open>size\<close> items of the array; the
  capacity and the allocator (which ends the process when memory runs out) are storage
  management and are not part of the model.
\<close>

record track =
  title :: string
  artist :: string
  album :: string
  duration :: "32 word"

type_synonym playlist = "track list"

definition MAX_LINE :: nat where
  "MAX_LINE = 1024"

abbreviation dquote :: char where
  "dquote \<equiv> CHR 0x22"

abbreviation comma :: char where
  "comma \<equiv> CHR '',''"

abbreviation newline :: char where
  "newline \<equiv> CHR 0x0A"

abbreviation NUL :: char where
  "NUL \<equiv> CHR 0x00"

text \<open>The C string held by a buffer of bytes: everything before the first NUL.\<close>

definition cstr :: "string \<Rightarrow> string" where
  "cstr buf = takeWhile (\<lambda>c. c \<noteq> NUL) buf"

section \<open>C library functions the program calls\<close>

text \<open>
  \<^verbatim>\<open>tolower\<close> in the C locale (the program never calls \<^verbatim>\<open>setlocale\<close>): the letters
  A to Z move to a to z, every other byte stays.
\<close>

definition tolower :: "char \<Rightarrow> char" where
  "tolower c =
     (if 65 \<le> (of_char c :: nat) \<and> (of_char c :: nat) \<le> 90
      then char_of ((of_char c :: nat) + 32) else c)"

text \<open>
  \<^verbatim>\<open>strstr(haystack, needle)\<close>: the suffix of the haystack that starts at the first
  occurrence of the needle, or NULL (\<open>None\<close>).  An empty needle is found at once.
\<close>

fun strstr :: "string \<Rightarrow> string \<Rightarrow> string option" where
  "strstr [] needle = (if needle = [] then Some [] else None)"
| "strstr (c # cs) needle =
     (if prefix needle (c # cs) then Some (c # cs) else strstr cs needle)"

text \<open>\<^verbatim>\<open>isspace\<close> and \<^verbatim>\<open>isdigit\<close> in the C locale.\<close>

definition isspace :: "char \<Rightarrow> bool" where
  "isspace c = (c \<in> set [CHR '' '', CHR 0x09, CHR 0x0A, CHR 0x0B, CHR 0x0C, CHR 0x0D])"

definition isdigit :: "char \<Rightarrow> bool" where
  "isdigit c = (48 \<le> (of_char c :: nat) \<and> (of_char c :: nat) \<le> 57)"

definition digit_val :: "char \<Rightarrow> nat" where
  "digit_val c = (of_char c :: nat) - 48"

fun atoi_digits :: "nat \<Rightarrow> string \<Rightarrow> nat" where
  "atoi_digits acc [] = acc"
| "atoi_digits acc (c # cs) =
     (if isdigit c then atoi_digits (acc * 10 + digit_val c) cs else acc)"

text \<open>
  \<^verbatim>\<open>atoi(s)\<close> is \<^verbatim>\<open>(int) strtol(s, NULL, 10)\<close>: leading white space, an optional sign,
  then the longest run of digits; no digits give 0.  As in the GNU C library on a 64-bit
  platform, \<^verbatim>\<open>strtol\<close> stops at \<^verbatim>\<open>LONG_MAX\<close> or \<^verbatim>\<open>LONG_MIN\<close> when the digits say more, and
  the conversion to \<^verbatim>\<open>int\<close> keeps the low 32 bits.
\<close>

definition LONG_MAX :: int where
  "LONG_MAX = 2 ^ 63 - 1"

definition LONG_MIN :: int where
  "LONG_MIN = - (2 ^ 63)"

definition strtol :: "string \<Rightarrow> int" where
  "strtol s =
     (case dropWhile isspace s of
        [] \<Rightarrow> 0
      | c # cs \<Rightarrow>
          if c = CHR ''-'' then max LONG_MIN (- int (atoi_digits 0 cs))
          else if c = CHR ''+'' then min LONG_MAX (int (atoi_digits 0 cs))
          else min LONG_MAX (int (atoi_digits 0 (c # cs))))"

definition atoi :: "string \<Rightarrow> 32 word" where
  "atoi s = word_of_int (strtol s)"

text \<open>\<^verbatim>\<open>printf("%d", d)\<close>: the decimal digits of a signed value.\<close>

definition digit_char :: "nat \<Rightarrow> char" where
  "digit_char n = ''0123456789'' ! n"

fun show_nat :: "nat \<Rightarrow> string" where
  "show_nat n = (if n < 10 then [digit_char n] else show_nat (n div 10) @ [digit_char (n mod 10)])"

declare show_nat.simps [simp del]

definition printf_d :: "32 word \<Rightarrow> string" where
  "printf_d d =
     (if sint d < 0 then CHR ''-'' # show_nat (nat (- sint d)) else show_nat (nat (sint d)))"

text \<open>
  \<^verbatim>\<open>fgets(buf, n, f)\<close> on the unread rest of a file: at most \<open>n - 1\<close> bytes, stopping
  after a newline; NULL (\<open>None\<close>) when nothing is left.  The result is the bytes stored
  and the rest of the file.
\<close>

fun fgets_bytes :: "nat \<Rightarrow> string \<Rightarrow> string \<times> string" where
  "fgets_bytes 0 cs = ([], cs)"
| "fgets_bytes (Suc k) [] = ([], [])"
| "fgets_bytes (Suc k) (c # cs) =
     (if c = newline then ([c], cs)
      else (case fgets_bytes k cs of (l, r) \<Rightarrow> (c # l, r)))"

definition fgets :: "nat \<Rightarrow> string \<Rightarrow> (string \<times> string) option" where
  "fgets n file = (if file = [] then None else Some (fgets_bytes (n - 1) file))"

text \<open>
  \<^verbatim>\<open>qsort\<close> belongs to the C library.  It is modelled as the GNU C library sorts an
  array of this size: a merge sort that halves the array at \<open>n / 2\<close>, sorts the two
  halves and merges them, taking the element of the first half whenever the comparison
  function returns a value that is not positive.  The elements are seen only through the
  comparison function, whose \<^verbatim>\<open>int\<close> result is read as negative, zero or positive.
\<close>

fun qsort_merge :: "('a \<Rightarrow> 'a \<Rightarrow> 32 word) \<Rightarrow> 'a list \<Rightarrow> 'a list \<Rightarrow> 'a list" where
  "qsort_merge cmp [] ys = ys"
| "qsort_merge cmp (x # xs) [] = x # xs"
| "qsort_merge cmp (x # xs) (y # ys) =
     (if sint (cmp x y) \<le> 0 then x # qsort_merge cmp xs (y # ys)
      else y # qsort_merge cmp (x # xs) ys)"

function qsort :: "('a \<Rightarrow> 'a \<Rightarrow> 32 word) \<Rightarrow> 'a list \<Rightarrow> 'a list" where
  "qsort cmp xs =
     (if length xs \<le> 1 then xs
      else qsort_merge cmp (qsort cmp (take (length xs div 2) xs))
                           (qsort cmp (drop (length xs div 2) xs)))"
  by pat_completeness auto
termination
  by (relation "measure (\<lambda>(cmp, xs). length xs)") auto

declare qsort.simps [simp del]

section \<open>Playlist operations\<close>

text \<open>\<^verbatim>\<open>free_track\<close> leaves a dead slot: the three pointers NULL and the duration 0.\<close>

definition free_track :: "track \<Rightarrow> track" where
  "free_track t = \<lparr>title = [], artist = [], album = [], duration = 0\<rparr>"

definition add_track :: "playlist \<Rightarrow> string \<Rightarrow> string \<Rightarrow> string \<Rightarrow> 32 word \<Rightarrow> playlist" where
  "add_track pl ti ar al d = pl @ [\<lparr>title = ti, artist = ar, album = al, duration = d\<rparr>]"

text \<open>The loop of \<^verbatim>\<open>remove_track_at\<close>: \<^verbatim>\<open>for (i = idx + 1; i < size; ++i) items[i-1] = items[i]\<close>.\<close>

function shift_left :: "nat \<Rightarrow> nat \<Rightarrow> track list \<Rightarrow> track list" where
  "shift_left i n items =
     (if i < n then shift_left (Suc i) n (items[i - 1 := items ! i]) else items)"
  by pat_completeness auto
termination
  by (relation "measure (\<lambda>(i, n, items). n - i)") auto

definition remove_track_at :: "playlist \<Rightarrow> nat \<Rightarrow> playlist" where
  "remove_track_at pl idx =
     (if length pl \<le> idx then pl
      else take (length pl - 1)
             (shift_left (idx + 1) (length pl) (pl[idx := free_track (pl ! idx)])))"

section \<open>The CSV codec\<close>

text \<open>
  \<^verbatim>\<open>csv_escape_field\<close> writes to the file; the model returns the bytes written.
  \<^verbatim>\<open>strchr(s, c)\<close> is non-NULL exactly when \<open>c\<close> occurs in \<open>s\<close>.  \<open>escape_chars\<close> is
  the loop over the characters of the field.
\<close>

fun escape_chars :: "string \<Rightarrow> string" where
  "escape_chars [] = []"
| "escape_chars (c # cs) =
     (if c = dquote then [dquote, dquote] @ escape_chars cs else c # escape_chars cs)"

definition csv_escape_field :: "string \<Rightarrow> string" where
  "csv_escape_field s =
     (if comma \<in> set s \<or> dquote \<in> set s
      then [dquote] @ escape_chars s @ [dquote]
      else s)"

text \<open>
  The two scanning loops of \<^verbatim>\<open>csv_read_field\<close>.  \<open>ti\<close> is the number of characters
  already stored in \<^verbatim>\<open>tmp\<close>; the result is the characters stored from here on and the
  position where the loop stops.  The test \<^verbatim>\<open>ti + 1 >= sizeof(tmp)\<close> follows a store
  and its increment, except after a doubled quote, where the source has \<^verbatim>\<open>continue\<close>.
\<close>

fun read_quoted :: "nat \<Rightarrow> string \<Rightarrow> string \<times> string" where
  "read_quoted ti [] = ([], [])"
| "read_quoted ti (c # cs) =
     (if c = dquote \<and> cs \<noteq> [] \<and> hd cs = dquote
      then (case read_quoted (Suc ti) (tl cs) of (tmp, s) \<Rightarrow> (dquote # tmp, s))
      else if c = dquote then ([], cs)
      else if MAX_LINE \<le> Suc ti + 1 then ([c], cs)
      else (case read_quoted (Suc ti) cs of (tmp, s) \<Rightarrow> (c # tmp, s)))"

fun read_plain :: "nat \<Rightarrow> string \<Rightarrow> string \<times> string" where
  "read_plain ti [] = ([], [])"
| "read_plain ti (c # cs) =
     (if c = comma then ([], c # cs)
      else if MAX_LINE \<le> Suc ti + 1 then ([c], cs)
      else (case read_plain (Suc ti) cs of (tmp, s) \<Rightarrow> (c # tmp, s)))"

text \<open>\<^verbatim>\<open>if (*s == ',') s++\<close>\<close>

definition skip_comma :: "string \<Rightarrow> string" where
  "skip_comma s = (case s of [] \<Rightarrow> [] | c # cs \<Rightarrow> if c = comma then cs else c # cs)"

text \<open>
  \<^verbatim>\<open>csv_read_field(&p)\<close>: the pointer is NULL (\<open>None\<close>) or points at the unread rest
  of the line.  The result is the field and the new pointer, NULL at the end of the line.
\<close>

definition csv_read_field :: "string option \<Rightarrow> string \<times> string option" where
  "csv_read_field sp =
     (case sp of
        None \<Rightarrow> ([], None)
      | Some [] \<Rightarrow> ([], None)
      | Some (c # cs) \<Rightarrow>
          (case (if c = dquote
                 then (case read_quoted 0 cs of
                         (tmp, s) \<Rightarrow> (tmp, skip_comma (dropWhile (\<lambda>x. x \<noteq> comma) s)))
                 else (case read_plain 0 (c # cs) of (tmp, s) \<Rightarrow> (tmp, skip_comma s)))
           of (tmp, s) \<Rightarrow> (tmp, if s = [] then None else Some s)))"

definition csv_header :: string where
  "csv_header = ''title,artist,album,duration_seconds'' @ [newline]"

text \<open>The bytes one pass of the saving loop writes.\<close>

definition save_record :: "track \<Rightarrow> string" where
  "save_record t =
     csv_escape_field (title t) @ [comma] @ csv_escape_field (artist t) @ [comma] @
     csv_escape_field (album t) @ [comma] @ printf_d (duration t) @ [newline]"

text \<open>
  \<^verbatim>\<open>save_playlist_csv\<close>: \<open>opened\<close> says whether \<^verbatim>\<open>fopen(path, "w")\<close> succeeded.  The
  result is the return value and the contents of the file written.
\<close>

definition save_playlist_csv :: "bool \<Rightarrow> playlist \<Rightarrow> int \<times> string option" where
  "save_playlist_csv opened pl =
     (if \<not> opened then (0, None)
      else (1, Some (csv_header @ concat (map save_record pl))))"

text \<open>The body of the loading loop, for one buffer filled by \<^verbatim>\<open>fgets\<close>.\<close>

definition load_record :: "playlist \<Rightarrow> string \<Rightarrow> playlist" where
  "load_record pl buf =
     (let line = takeWhile (\<lambda>c. c \<noteq> newline) (cstr buf) in
      case csv_read_field (Some line) of (f1, p1) \<Rightarrow>
      case csv_read_field p1 of (f2, p2) \<Rightarrow>
      case csv_read_field p2 of (f3, p3) \<Rightarrow>
      case csv_read_field p3 of (f4, p4) \<Rightarrow>
        if f1 \<noteq> [] then add_track pl f1 f2 f3 (atoi f4) else pl)"

lemma length_fgets_bytes: "length (snd (fgets_bytes k cs)) \<le> length cs"
  by (induction k cs rule: fgets_bytes.induct) (auto split: prod.splits)

lemma fgets_consumes:
  assumes "fgets n f = Some (buf, rest)" and "1 < n"
  shows "length rest < length f"
proof -
  from assms(1) obtain c cs where f: "f = c # cs"
    by (cases f) (auto simp: fgets_def)
  from assms(2) obtain k where n: "n - 1 = Suc k"
    by (cases "n - 1") auto
  have "length (snd (fgets_bytes k cs)) \<le> length cs"
    by (rule length_fgets_bytes)
  with assms(1) f n show ?thesis
    by (auto simp: fgets_def split: prod.splits if_splits)
qed

function load_records :: "playlist \<Rightarrow> string \<Rightarrow> playlist" where
  "load_records pl f =
     (case fgets MAX_LINE f of
        None \<Rightarrow> pl
      | Some (buf, rest) \<Rightarrow> load_records (load_record pl buf) rest)"
  by pat_completeness auto
termination
  by (relation "measure (\<lambda>(pl, f). length f)")
     (auto simp: MAX_LINE_def intro: fgets_consumes)

text \<open>
  \<^verbatim>\<open>load_playlist_csv\<close>: the file is \<open>None\<close> when \<^verbatim>\<open>fopen(path, "r")\<close> fails.  The
  first buffer is looked at as a C string; unless it holds both words the file is read
  again from the start.
\<close>

definition load_playlist_csv :: "playlist \<Rightarrow> string option \<Rightarrow> int \<times> playlist" where
  "load_playlist_csv pl f =
     (case f of
        None \<Rightarrow> (0, pl)
      | Some file \<Rightarrow>
          (case fgets MAX_LINE file of
             None \<Rightarrow> (0, pl)
           | Some (buf, rest) \<Rightarrow>
               if strstr (cstr buf) ''title'' = None \<or> strstr (cstr buf) ''artist'' = None
               then (1, load_records pl file)
               else (1, load_records pl rest)))"

section \<open>Search, shuffle and sort\<close>

definition str_tolower_copy :: "string \<Rightarrow> string" where
  "str_tolower_copy s = map tolower s"

text \<open>
  \<^verbatim>\<open>search_playlist\<close> prints each matching track with its index, and one line saying
  that nothing matched when that is so.  The model returns what is printed:
  \<open>Print_track i t\<close> is the call \<^verbatim>\<open>print_track(&pl->items[i], i)\<close>, which prints the
  track under the number \<open>i + 1\<close>.  The needle is a C string; the main loop is what
  has to supply one.
\<close>

datatype printed = Print_track nat track | No_matches string

fun search_from :: "nat \<Rightarrow> track list \<Rightarrow> string \<Rightarrow> (nat \<times> track) list" where
  "search_from i [] low = []"
| "search_from i (t # ts) low =
     (if strstr (str_tolower_copy (title t)) low \<noteq> None
         \<or> strstr (str_tolower_copy (artist t)) low \<noteq> None
         \<or> strstr (str_tolower_copy (album t)) low \<noteq> None
      then (i, t) # search_from (Suc i) ts low
      else search_from (Suc i) ts low)"

definition search_playlist :: "playlist \<Rightarrow> string \<Rightarrow> printed list" where
  "search_playlist pl needle =
     (let hits = search_from 0 pl (str_tolower_copy needle) in
      map (\<lambda>(i, t). Print_track i t) hits @ (if hits = [] then [No_matches needle] else []))"

text \<open>
  \<^verbatim>\<open>shuffle_playlist\<close>: \<open>gen seed k\<close> is the value of the \<open>k\<close>-th call of \<^verbatim>\<open>rand()\<close>
  after \<^verbatim>\<open>srand(seed)\<close>, and \<open>now\<close> is \<^verbatim>\<open>(unsigned int)time(NULL)\<close>.  The loop runs
  \<open>i\<close> from \<open>size - 1\<close> down to 1, so both indices it reads are below the size.
\<close>

fun shuffle_loop :: "(nat \<Rightarrow> nat) \<Rightarrow> nat \<Rightarrow> nat \<Rightarrow> track list \<Rightarrow> track list" where
  "shuffle_loop rnd k 0 items = items"
| "shuffle_loop rnd k (Suc i) items =
     (let j = rnd k mod (Suc i + 1);
          tmp = items ! Suc i;
          items1 = items[Suc i := items ! j];
          items2 = items1[j := tmp]
      in shuffle_loop rnd (Suc k) i items2)"

definition shuffle_playlist :: "(32 word \<Rightarrow> nat \<Rightarrow> nat) \<Rightarrow> 32 word \<Rightarrow> playlist \<Rightarrow> playlist" where
  "shuffle_playlist gen now pl =
     (if length pl < 2 then pl else shuffle_loop (gen now) 0 (length pl - 1) pl)"

definition cmp_duration :: "track \<Rightarrow> track \<Rightarrow> 32 word" where
  "cmp_duration ta tb = duration ta - duration tb"

text \<open>The command \<^verbatim>\<open>sort dur\<close> of the main loop.\<close>

definition sort_by_duration :: "playlist \<Rightarrow> playlist" where
  "sort_by_duration pl = qsort cmp_duration pl"

declare shift_left.simps [simp del]

declare load_records.simps [simp del]

section \<open>The words of the specification\<close>

text \<open>
  An ASCII case-insensitive occurrence, said without the program's lower-casing: two
  characters are the same letter when they are equal or one is a capital A to Z and the
  other its small form; a needle occurs in a text when some stretch of the text matches
  it letter for letter.
\<close>

definition is_upper :: "char \<Rightarrow> bool" where
  "is_upper c = (65 \<le> (of_char c :: nat) \<and> (of_char c :: nat) \<le> 90)"

definition same_letter :: "char \<Rightarrow> char \<Rightarrow> bool" where
  "same_letter a b =
     (a = b \<or> (is_upper a \<and> (of_char b :: nat) = of_char a + 32)
            \<or> (is_upper b \<and> (of_char a :: nat) = of_char b + 32))"

definition ci_substring :: "string \<Rightarrow> string \<Rightarrow> bool" where
  "ci_substring needle s = (\<exists>ps ms ss. s = ps @ ms @ ss \<and> list_all2 same_letter ms needle)"

definition track_matches :: "string \<Rightarrow> track \<Rightarrow> bool" where
  "track_matches needle t =
     (ci_substring needle (title t) \<or> ci_substring needle (artist t) \<or> ci_substring needle (album t))"

text \<open>
  The Fisher-Yates procedure as the specification words it: for \<open>i\<close> from the last index
  down to 1, the element at \<open>i\<close> changes places with the element at the picked index.
\<close>

definition swap_items :: "nat \<Rightarrow> nat \<Rightarrow> 'a list \<Rightarrow> 'a list" where
  "swap_items i j xs = xs[i := xs ! j, j := xs ! i]"

definition fisher_yates :: "(nat \<Rightarrow> nat) \<Rightarrow> 'a list \<Rightarrow> 'a list" where
  "fisher_yates pick xs = fold (\<lambda>i ys. swap_items i (pick i) ys) (rev [1..<length xs]) xs"

text \<open>The line of a record as it stands in the file, without its newline.\<close>

definition record_line :: "track \<Rightarrow> string" where
  "record_line t =
     csv_escape_field (title t) @ comma # csv_escape_field (artist t) @ comma #
     csv_escape_field (album t) @ comma # printf_d (duration t)"

text \<open>
  A field that needs no quoting and can stand in a line of a text file, and a text that
  \<^verbatim>\<open>atoi\<close> can read a number from: optional white space, an optional sign, a digit.
\<close>

definition plain_field :: "string \<Rightarrow> bool" where
  "plain_field s =
     (comma \<notin> set s \<and> dquote \<notin> set s \<and> newline \<notin> set s \<and> NUL \<notin> set s)"

definition starts_with_number :: "string \<Rightarrow> bool" where
  "starts_with_number s =
     (case dropWhile isspace s of
        [] \<Rightarrow> False
      | c # cs \<Rightarrow> if c = CHR ''-'' \<or> c = CHR ''+'' then cs \<noteq> [] \<and> isdigit (hd cs) else isdigit c)"

text \<open>
  The buffers that the calls of \<^verbatim>\<open>fgets\<close> in the loading loop deliver, one after the
  other, until the end of the file: a line with its newline, or the next 1023 bytes of a
  line that is longer.
\<close>

function read_buffers :: "string \<Rightarrow> string list" where
  "read_buffers f =
     (case fgets MAX_LINE f of None \<Rightarrow> [] | Some (buf, rest) \<Rightarrow> buf # read_buffers rest)"
  by pat_completeness auto
termination
  by (relation "measure length") (auto simp: MAX_LINE_def intro: fgets_consumes)

declare read_buffers.simps [simp del]

text \<open>
  What the loader looks at to tell a header: the first line with its newline, cut to
  the 1023 bytes the buffer holds and read as a C string, that is up to its first NUL.
  \<open>sniffed_length\<close> is the number of bytes of the file this takes.
\<close>

definition first_line :: "string \<Rightarrow> string" where
  "first_line f = takeWhile (\<lambda>c. c \<noteq> newline) f"

definition sniffed_length :: "string \<Rightarrow> nat" where
  "sniffed_length f = min (MAX_LINE - 1) (Suc (length (first_line f)))"

definition sniffed :: "string \<Rightarrow> string" where
  "sniffed f = cstr (take (sniffed_length f) f)"

text \<open>
  Inside quotes a quote is written twice; \<open>doubled t\<close> is the text \<open>t\<close> written so.
  \<open>after_comma s\<close> is where the next field starts: behind the first comma of \<open>s\<close>, and
  nowhere (\<open>None\<close>, the NULL pointer) when \<open>s\<close> has no comma or ends with it.
\<close>

definition doubled :: "string \<Rightarrow> string" where
  "doubled t = concat (map (\<lambda>c. if c = dquote then [dquote, dquote] else [c]) t)"

definition after_comma :: "string \<Rightarrow> string option" where
  "after_comma s =
     (let r = drop 1 (dropWhile (\<lambda>c. c \<noteq> comma) s) in if r = [] then None else Some r)"

section \<open>Example data\<close>

definition song_a :: track where
  "song_a = \<lparr>title = ''Song A'', artist = ''Artist X'', album = ''Album 1'', duration = 125\<rparr>"

definition song_b :: track where
  "song_b = \<lparr>title = ''Song B'', artist = ''Artist Y'', album = ''Album 2'', duration = 340\<rparr>"

definition song_c :: track where
  "song_c = \<lparr>title = ''Say '' @ [dquote] @ ''Hi'' @ [dquote] @ '', Bye'', artist = ''Zed'',
              album = [], duration = - 7\<rparr>"

definition song_b_csv :: string where
  "song_b_csv = ''Song B,Artist Y,Album 2,340'' @ [newline]"

definition late_track :: track where
  "late_track = \<lparr>title = ''Late'', artist = ''X'', album = ''Y'', duration = 2000000000\<rparr>"

definition early_track :: track where
  "early_track = \<lparr>title = ''Early'', artist = ''X'', album = ''Y'', duration = - 2000000000\<rparr>"

definition thirteen_tracks :: playlist where
  "thirteen_tracks =
     map (\<lambda>n. \<lparr>title = ''Track'', artist = ''Artist'', album = ''Album'', duration = of_nat n\<rparr>)
       [0..<13]"

definition untitled_track :: track where
  "untitled_track = \<lparr>title = [], artist = ''Artist X'', album = ''Album 1'', duration = 125\<rparr>"

definition long_record_track :: track where
  "long_record_track =
     \<lparr>title = replicate 600 (CHR ''a''), artist = replicate 600 (CHR ''b''), album = ''Y'',
      duration = 5\<rparr>"

definition long_field :: string where
  "long_field = comma # replicate 1023 (CHR ''a'')"

definition long_header :: string where
  "long_header = ''title,artist'' @ replicate 1020 (CHR ''x'') @ [newline]"

definition header_text :: string where
  "header_text = ''title,artist,album,duration_seconds''"

definition song_b_line :: string where
  "song_b_line = ''Song B,Artist Y,Album 2,340''"

definition song_c_line :: string where
  "song_c_line = [dquote] @ ''Say '' @ [dquote, dquote] @ ''Hi'' @ [dquote, dquote] @ '', Bye''
                   @ [dquote] @ '',Zed,,-7''"

definition padded_header :: string where
  "padded_header = ''artist,title'' @ replicate 1011 (CHR ''x'')"

definition nul_line :: string where
  "nul_line = ''title'' @ [NUL] @ '',artist''"

definition quoted_title_line :: string where
  "quoted_title_line = [dquote] @ ''Hey, you'' @ [dquote]"

definition open_quote_line :: string where
  "open_quote_line = [dquote] @ ''Half,done''"

definition ragged_csv :: string where
  "ragged_csv = quoted_title_line @ [newline] @ '',Artist Y,Album 2,340'' @ [newline]
                  @ ''Song B,Artist Y,Album 2,soon'' @ [newline] @ open_quote_line"

section \<open>The buffers are large enough\<close>

text \<open>
  \<^verbatim>\<open>fgets\<close> stores at most \<open>MAX_LINE - 1\<close> characters, and \<^verbatim>\<open>csv_read_field\<close> stores no
  more characters than the line it reads has.  So the store after a doubled quote, the
  one store the source does not guard, stays inside \<^verbatim>\<open>tmp\<close> as well.
\<close>

lemma read_quoted_stored: "length (fst (read_quoted ti s)) \<le> length s"
  by (induction ti s rule: read_quoted.induct) (auto split: prod.splits)

lemma read_plain_stored: "length (fst (read_plain ti s)) \<le> length s"
  by (induction ti s rule: read_plain.induct) (auto split: prod.splits)

lemma fgets_bytes_stored: "length (fst (fgets_bytes k cs)) \<le> k"
  by (induction k cs rule: fgets_bytes.induct) (auto split: prod.splits)

lemma fgets_stored: "fgets n f = Some (buf, rest) \<Longrightarrow> length buf \<le> n - 1"
  using fgets_bytes_stored [of "n - 1" f] by (auto simp: fgets_def split: if_splits)

lemma csv_read_field_stored: "length (fst (csv_read_field (Some s))) \<le> length s"
proof (cases s)
  case Nil
  then show ?thesis
    by (simp add: csv_read_field_def)
next
  case (Cons c cs)
  show ?thesis
  proof (cases "c = dquote")
    case True
    with Cons read_quoted_stored [of 0 cs] show ?thesis
      by (auto simp: csv_read_field_def split: prod.splits)
  next
    case False
    with Cons read_plain_stored [of 0 "c # cs"] show ?thesis
      by (auto simp: csv_read_field_def split: prod.splits)
  qed
qed

section \<open>Finding a substring\<close>

lemma strstr_sublist: "strstr h n \<noteq> None \<longleftrightarrow> sublist n h"
  by (induction h) (auto simp: sublist_Cons_right)

lemma strstr_found: "(\<exists>y. strstr h n = Some y) \<longleftrightarrow> sublist n h"
  using strstr_sublist [of h n] by auto

lemma strstr_None: "strstr h n = None \<longleftrightarrow> \<not> sublist n h"
  using strstr_sublist [of h n] by auto

lemma sublist_snoc:
  assumes "c \<notin> set w" "w \<noteq> []"
  shows "sublist w (l @ [c]) \<longleftrightarrow> sublist w l"
proof -
  have "sublist (rev w) (c # rev l) \<longleftrightarrow> sublist (rev w) (rev l)"
  proof -
    have "\<not> prefix (rev w) (c # rev l)"
      using assms by (cases "rev w") (auto simp: prefix_def dest: arg_cong [where f = set])
    then show ?thesis
      by (simp add: sublist_Cons_right)
  qed
  then show ?thesis
    using sublist_rev [of w "l @ [c]"] sublist_rev [of w l] by simp
qed

section \<open>Printing and reading a duration\<close>

lemma below_ten: "n < 10 \<Longrightarrow> n \<in> {0, 1, 2, 3, 4, 5, 6, 7, 8, 9 :: nat}"
  by auto

lemma isdigit_digit_char: "n < 10 \<Longrightarrow> isdigit (digit_char n)"
  by (drule below_ten) (auto simp: isdigit_def digit_char_def)

lemma digit_val_digit_char: "n < 10 \<Longrightarrow> digit_val (digit_char n) = n"
  by (drule below_ten) (auto simp: digit_val_def digit_char_def)

lemma digit_char_cases: "n < 10 \<Longrightarrow> digit_char n \<in> set ''0123456789''"
  by (drule below_ten) (auto simp: digit_char_def)

lemma show_nat_digits: "set (show_nat n) \<subseteq> set ''0123456789''"
proof (induction n rule: show_nat.induct)
  case (1 n)
  show ?case
  proof (cases "n < 10")
    case True
    then have "show_nat n = [digit_char n]"
      by (subst show_nat.simps) simp
    with True digit_char_cases [of n] show ?thesis
      by simp
  next
    case False
    then have "show_nat n = show_nat (n div 10) @ [digit_char (n mod 10)]"
      by (subst show_nat.simps) simp
    moreover have "digit_char (n mod 10) \<in> set ''0123456789''"
      by (rule digit_char_cases) simp
    ultimately show ?thesis
      using "1.IH" [OF False] by simp
  qed
qed

lemma show_nat_nonempty: "show_nat n \<noteq> []"
  by (subst show_nat.simps) simp

lemma isdigit_show_nat: "c \<in> set (show_nat n) \<Longrightarrow> isdigit c"
  using show_nat_digits [of n] by (auto simp: isdigit_def)

lemma atoi_digits_snoc:
  "\<forall>c\<in>set ds. isdigit c \<Longrightarrow> isdigit d \<Longrightarrow>
   atoi_digits acc (ds @ [d]) = atoi_digits acc ds * 10 + digit_val d"
  by (induction ds arbitrary: acc) auto

lemma atoi_digits_show_nat: "atoi_digits 0 (show_nat n) = n"
proof (induction n rule: show_nat.induct)
  case (1 n)
  show ?case
  proof (cases "n < 10")
    case True
    then have "show_nat n = [digit_char n]"
      by (subst show_nat.simps) simp
    with True show ?thesis
      by (simp add: isdigit_digit_char digit_val_digit_char)
  next
    case False
    then have "show_nat n = show_nat (n div 10) @ [digit_char (n mod 10)]"
      by (subst show_nat.simps) simp
    moreover have "atoi_digits 0 (show_nat (n div 10) @ [digit_char (n mod 10)])
                     = atoi_digits 0 (show_nat (n div 10)) * 10 + digit_val (digit_char (n mod 10))"
      by (rule atoi_digits_snoc) (auto simp: isdigit_show_nat isdigit_digit_char)
    ultimately show ?thesis
      using "1.IH" [OF False] by (simp add: digit_val_digit_char)
  qed
qed

lemma hd_show_nat_digit: "isdigit (hd (show_nat n))"
  using show_nat_nonempty [of n] isdigit_show_nat [of "hd (show_nat n)" n] by simp

lemma isdigit_not_special:
  "isdigit c \<Longrightarrow> \<not> isspace c \<and> c \<noteq> CHR ''-'' \<and> c \<noteq> CHR ''+''
      \<and> c \<noteq> comma \<and> c \<noteq> dquote \<and> c \<noteq> newline \<and> c \<noteq> NUL"
  by (auto simp: isdigit_def isspace_def)

lemma strtol_show_nat: "strtol (show_nat n) = min LONG_MAX (int n)"
proof -
  obtain c cs where s: "show_nat n = c # cs"
    using show_nat_nonempty [of n] by (cases "show_nat n") auto
  with hd_show_nat_digit [of n] have "isdigit c"
    by simp
  then have "\<not> isspace c" "c \<noteq> CHR ''-''" "c \<noteq> CHR ''+''"
    using isdigit_not_special by blast+
  then have "strtol (c # cs) = min LONG_MAX (int (atoi_digits 0 (c # cs)))"
    by (simp add: strtol_def)
  with s atoi_digits_show_nat [of n] show ?thesis
    by simp
qed

lemma strtol_minus_show_nat: "strtol (CHR ''-'' # show_nat n) = max LONG_MIN (- int n)"
  using atoi_digits_show_nat [of n] by (simp add: strtol_def isspace_def)

lemma atoi_printf_d: "atoi (printf_d d) = d"
proof (cases "sint d < 0")
  case True
  have "- (2 ^ 31) \<le> sint d"
    using sint_ge [of d] by simp
  then have "max LONG_MIN (- int (nat (- sint d))) = sint d"
    using True by (simp add: LONG_MIN_def)
  with True have "atoi (printf_d d) = word_of_int (sint d)"
    by (simp add: printf_d_def atoi_def strtol_minus_show_nat)
  then show ?thesis
    by simp
next
  case False
  have "sint d < 2 ^ 31"
    using sint_lt [of d] by simp
  then have "min LONG_MAX (int (nat (sint d))) = sint d"
    using False by (simp add: LONG_MAX_def)
  with False have "atoi (printf_d d) = word_of_int (sint d)"
    by (simp add: printf_d_def atoi_def strtol_show_nat)
  then show ?thesis
    by simp
qed

lemma printf_d_chars:
  "c \<in> set (printf_d d) \<Longrightarrow> c \<noteq> comma \<and> c \<noteq> dquote \<and> c \<noteq> newline \<and> c \<noteq> NUL"
  using isdigit_show_nat isdigit_not_special
  by (fastforce simp: printf_d_def split: if_splits)

lemma printf_d_nonempty: "printf_d d \<noteq> []"
  by (simp add: printf_d_def show_nat_nonempty)

text \<open>
  A number outside the range of \<^verbatim>\<open>long\<close> is read as \<^verbatim>\<open>LONG_MAX\<close> or \<^verbatim>\<open>LONG_MIN\<close>, of which
  the conversion to \<^verbatim>\<open>int\<close> keeps the low 32 bits; a number inside it only loses its high
  bits.
\<close>

lemma atoi_saturates:
  "strtol ''99999999999999999999'' = LONG_MAX"
  "atoi ''99999999999999999999'' = - 1"
  "strtol ''-99999999999999999999'' = LONG_MIN"
  "atoi ''-99999999999999999999'' = 0"
  "atoi ''4294967298'' = 2"
  by (simp_all add: atoi_def strtol_def LONG_MAX_def LONG_MIN_def isspace_def isdigit_def
        digit_val_def)

section \<open>Reading back an escaped field\<close>

lemma escape_chars_concat:
  "escape_chars s = concat (map (\<lambda>c. if c = dquote then [dquote, dquote] else [c]) s)"
  by (induction s) auto

lemma read_quoted_escape:
  assumes "ti + length s < MAX_LINE" and "r = [] \<or> hd r \<noteq> dquote"
  shows "\<exists>r'. read_quoted ti (escape_chars s @ dquote # r) = (s, r') \<and> (r' = r \<or> r' = dquote # r)"
  using assms
proof (induction s arbitrary: ti)
  case Nil
  then show ?case
    by auto
next
  case (Cons c s)
  show ?case
  proof (cases "c = dquote")
    case True
    from Cons.prems have "Suc ti + length s < MAX_LINE"
      by simp
    from Cons.IH [OF this Cons.prems(2)] True show ?thesis
      by auto
  next
    case False
    show ?thesis
    proof (cases "MAX_LINE \<le> Suc ti + 1")
      case True
      with Cons.prems(1) have "s = []"
        by (cases s) auto
      with True False show ?thesis
        by simp
    next
      case limit: False
      with Cons.prems have "Suc ti + length s < MAX_LINE"
        by simp
      from Cons.IH [OF this Cons.prems(2)] False limit show ?thesis
        by auto
    qed
  qed
qed

lemma read_plain_field:
  assumes "comma \<notin> set s" and "ti + length s < MAX_LINE" and "r = [] \<or> hd r = comma"
  shows "read_plain ti (s @ r) = (s, r)"
  using assms
proof (induction s arbitrary: ti)
  case Nil
  then show ?case
    by (cases r) auto
next
  case (Cons c s)
  show ?case
  proof (cases "MAX_LINE \<le> Suc ti + 1")
    case True
    with Cons.prems(2) have "s = []"
      by (cases s) auto
    with True Cons.prems show ?thesis
      by simp
  next
    case False
    with Cons.prems have "Suc ti + length s < MAX_LINE"
      by simp
    with Cons False show ?thesis
      by auto
  qed
qed

lemma csv_read_field_escape:
  assumes "length s < MAX_LINE"
  shows "csv_read_field (Some (csv_escape_field s @ comma # r))
           = (s, if r = [] then None else Some r)"
proof (cases "comma \<in> set s \<or> dquote \<in> set s")
  case True
  from assms read_quoted_escape [of 0 s "comma # r"]
  obtain r' where r': "read_quoted 0 (escape_chars s @ dquote # comma # r) = (s, r')"
      "r' = comma # r \<or> r' = dquote # comma # r"
    by auto
  then have "skip_comma (dropWhile (\<lambda>x. x \<noteq> comma) r') = r"
    by (auto simp: skip_comma_def)
  with True r' show ?thesis
    by (simp add: csv_read_field_def csv_escape_field_def)
next
  case False
  then have plain: "read_plain 0 (s @ comma # r) = (s, comma # r)"
    using assms by (intro read_plain_field) auto
  show ?thesis
  proof (cases s)
    case Nil
    with False show ?thesis
      by (simp add: csv_read_field_def csv_escape_field_def skip_comma_def)
  next
    case (Cons c cs)
    with False have "c \<noteq> dquote"
      by auto
    with False Cons plain show ?thesis
      by (simp add: csv_read_field_def csv_escape_field_def skip_comma_def)
  qed
qed

lemma csv_read_field_last:
  assumes "comma \<notin> set s" "s \<noteq> []" "hd s \<noteq> dquote" "length s < MAX_LINE"
  shows "csv_read_field (Some s) = (s, None)"
proof -
  from assms have "read_plain 0 (s @ []) = (s, [])"
    by (intro read_plain_field) auto
  with assms show ?thesis
    by (cases s) (auto simp: csv_read_field_def skip_comma_def)
qed

lemma csv_read_field_escape_alone:
  assumes "length s < MAX_LINE"
  shows "csv_read_field (Some (csv_escape_field s)) = (s, None)"
proof (cases "comma \<in> set s \<or> dquote \<in> set s")
  case True
  from assms read_quoted_escape [of 0 s "[]"]
  obtain r' where r': "read_quoted 0 (escape_chars s @ [dquote]) = (s, r')"
      "r' = [] \<or> r' = [dquote]"
    by auto
  then have "skip_comma (dropWhile (\<lambda>x. x \<noteq> comma) r') = []"
    by (auto simp: skip_comma_def)
  with True r' show ?thesis
    by (simp add: csv_read_field_def csv_escape_field_def)
next
  case False
  show ?thesis
  proof (cases "s = []")
    case True
    then show ?thesis
      by (simp add: csv_read_field_def csv_escape_field_def)
  next
    case nonempty: False
    with False assms have "csv_read_field (Some s) = (s, None)"
      by (intro csv_read_field_last) (auto simp: neq_Nil_conv)
    with False show ?thesis
      by (simp add: csv_escape_field_def)
  qed
qed

lemma read_quoted_bounded:
  assumes "dquote \<notin> set s" and "Suc ti < MAX_LINE"
  shows "ti + length (fst (read_quoted ti (s @ [dquote]))) < MAX_LINE"
  using assms
proof (induction s arbitrary: ti)
  case Nil
  then show ?case
    by simp
next
  case (Cons c s)
  show ?case
  proof (cases "MAX_LINE \<le> Suc ti + 1")
    case True
    with Cons.prems show ?thesis
      by auto
  next
    case False
    then have "Suc (Suc ti) < MAX_LINE"
      by simp
    moreover from Cons.prems have "c \<noteq> dquote" "dquote \<notin> set s"
      by auto
    ultimately show ?thesis
      using Cons.IH [of "Suc ti"] False by (auto split: prod.splits)
  qed
qed

section \<open>Reading back a saved record\<close>

lemma save_record_line: "save_record t = record_line t @ [newline]"
  by (simp add: save_record_def record_line_def)

lemma set_escape_chars: "set (escape_chars s) = set s"
  by (induction s) auto

lemma length_escape_chars: "length s \<le> length (escape_chars s)"
  by (induction s) auto

lemma set_csv_escape_field: "set (csv_escape_field s) \<subseteq> insert dquote (set s)"
  by (auto simp: csv_escape_field_def set_escape_chars)

lemma length_csv_escape_field: "length s \<le> length (csv_escape_field s)"
  using length_escape_chars [of s] by (simp add: csv_escape_field_def)

lemma fgets_bytes_line:
  "newline \<notin> set l \<Longrightarrow> length l < k \<Longrightarrow>
   fgets_bytes k (l @ newline # rest) = (l @ [newline], rest)"
proof (induction l arbitrary: k)
  case Nil
  then show ?case
    by (cases k) auto
next
  case (Cons c l)
  then show ?case
    by (cases k) auto
qed

lemma fgets_bytes_full:
  "newline \<notin> set l \<Longrightarrow> length l = k \<Longrightarrow> fgets_bytes k (l @ rest) = (l, rest)"
  by (induction l arbitrary: k) auto

lemma fgets_bytes_end:
  "newline \<notin> set l \<Longrightarrow> length l \<le> k \<Longrightarrow> fgets_bytes k l = (l, [])"
proof (induction l arbitrary: k)
  case Nil
  then show ?case
    by (cases k) auto
next
  case (Cons c l)
  then show ?case
    by (cases k) auto
qed

lemma takeWhile_upto: "c \<notin> set l \<Longrightarrow> takeWhile (\<lambda>x. x \<noteq> c) (l @ c # r) = l"
  by (induction l) auto

lemma takeWhile_all: "c \<notin> set l \<Longrightarrow> takeWhile (\<lambda>x. x \<noteq> c) l = l"
  by (induction l) auto

lemma cstr_id: "NUL \<notin> set s \<Longrightarrow> cstr s = s"
  by (simp add: cstr_def takeWhile_all)

lemma load_record_blank: "load_record pl [newline] = pl"
  by (simp add: load_record_def cstr_def csv_read_field_def)

lemma load_records_Nil: "load_records pl [] = pl"
  by (simp add: load_records.simps fgets_def)

lemma load_record_strip_newline:
  assumes "newline \<notin> set l"
  shows "load_record pl (l @ [newline]) = load_record pl l"
proof -
  have "takeWhile (\<lambda>c. c \<noteq> newline) (cstr (l @ [newline])) = takeWhile (\<lambda>c. c \<noteq> newline) (cstr l)"
  proof (cases "NUL \<in> set l")
    case True
    then have "cstr (l @ [newline]) = cstr l"
      by (simp add: cstr_def takeWhile_append1)
    then show ?thesis
      by simp
  next
    case False
    with assms show ?thesis
      by (simp add: cstr_id takeWhile_upto takeWhile_all)
  qed
  then show ?thesis
    by (simp add: load_record_def)
qed

text \<open>A whole line that fits the buffer is handled by one pass of the loop, whether or
  not its newline still fits.\<close>

lemma load_records_line:
  assumes "newline \<notin> set l" and "length l < MAX_LINE"
  shows "load_records pl (l @ newline # rest)
           = load_records (if length l + 1 < MAX_LINE then load_record pl (l @ [newline])
                           else load_record pl l) rest"
proof (cases "length l + 1 < MAX_LINE")
  case True
  with assms have "fgets MAX_LINE (l @ newline # rest) = Some (l @ [newline], rest)"
    by (simp add: fgets_def fgets_bytes_line)
  with True show ?thesis
    by (simp add: load_records.simps [of _ "l @ newline # rest"])
next
  case False
  with assms have len: "length l = MAX_LINE - 1"
    by simp
  then have "l \<noteq> []"
    by (auto simp: MAX_LINE_def)
  with assms len have "fgets MAX_LINE (l @ newline # rest) = Some (l, newline # rest)"
    by (simp add: fgets_def fgets_bytes_full)
  then have "load_records pl (l @ newline # rest) = load_records (load_record pl l) (newline # rest)"
    by (simp add: load_records.simps [of _ "l @ newline # rest"])
  also have "fgets MAX_LINE (newline # rest) = Some ([newline], rest)"
    using fgets_bytes_line [of "[]" "MAX_LINE - 1" rest] by (simp add: fgets_def MAX_LINE_def)
  then have "load_records (load_record pl l) (newline # rest)
               = load_records (load_record (load_record pl l) [newline]) rest"
    by (simp add: load_records.simps [of _ "newline # rest"])
  finally show ?thesis
    using False by (simp add: load_record_blank)
qed

lemma record_line_chars:
  assumes "c \<noteq> dquote" "c \<notin> set (title t)" "c \<notin> set (artist t)" "c \<notin> set (album t)"
    and "c = newline \<or> c = NUL"
  shows "c \<notin> set (record_line t)"
proof -
  have "c \<notin> set (csv_escape_field s)" if "c \<notin> set s" for s
    using that assms(1) set_csv_escape_field [of s] by auto
  moreover have "c \<notin> set (printf_d (duration t))"
    using assms(5) printf_d_chars [of c "duration t"] by auto
  moreover have "c \<noteq> comma"
    using assms(5) by auto
  ultimately show ?thesis
    using assms by (simp add: record_line_def)
qed

lemma read_record_line:
  assumes "length (record_line t) < MAX_LINE"
  shows "csv_read_field (Some (record_line t))
           = (title t, Some (csv_escape_field (artist t) @ comma # csv_escape_field (album t)
                               @ comma # printf_d (duration t)))"
    and "csv_read_field (Some (csv_escape_field (artist t) @ comma # csv_escape_field (album t)
                                 @ comma # printf_d (duration t)))
           = (artist t, Some (csv_escape_field (album t) @ comma # printf_d (duration t)))"
    and "csv_read_field (Some (csv_escape_field (album t) @ comma # printf_d (duration t)))
           = (album t, Some (printf_d (duration t)))"
    and "csv_read_field (Some (printf_d (duration t))) = (printf_d (duration t), None)"
proof -
  have len: "length (title t) < MAX_LINE" "length (artist t) < MAX_LINE"
      "length (album t) < MAX_LINE" "length (printf_d (duration t)) < MAX_LINE"
    using assms length_csv_escape_field [of "title t"] length_csv_escape_field [of "artist t"]
      length_csv_escape_field [of "album t"]
    by (simp_all add: record_line_def)
  show "csv_read_field (Some (record_line t))
           = (title t, Some (csv_escape_field (artist t) @ comma # csv_escape_field (album t)
                               @ comma # printf_d (duration t)))"
    using csv_read_field_escape [OF len(1)] by (simp add: record_line_def)
  show "csv_read_field (Some (csv_escape_field (artist t) @ comma # csv_escape_field (album t)
                                 @ comma # printf_d (duration t)))
           = (artist t, Some (csv_escape_field (album t) @ comma # printf_d (duration t)))"
    using csv_read_field_escape [OF len(2)] by simp
  show "csv_read_field (Some (csv_escape_field (album t) @ comma # printf_d (duration t)))
           = (album t, Some (printf_d (duration t)))"
    using csv_read_field_escape [OF len(3)] by (simp add: printf_d_nonempty)
  have "hd (printf_d (duration t)) \<in> set (printf_d (duration t))"
    by (simp add: printf_d_nonempty)
  then have "hd (printf_d (duration t)) \<noteq> dquote" "comma \<notin> set (printf_d (duration t))"
    using printf_d_chars by blast+
  then show "csv_read_field (Some (printf_d (duration t))) = (printf_d (duration t), None)"
    using len(4) by (intro csv_read_field_last) (simp_all add: printf_d_nonempty)
qed

lemma load_record_line:
  assumes "length (record_line t) < MAX_LINE" and "title t \<noteq> []"
    and "newline \<notin> set (record_line t)" and "NUL \<notin> set (record_line t)"
  shows "load_record pl (record_line t @ [newline]) = pl @ [t]"
    and "load_record pl (record_line t) = pl @ [t]"
proof -
  have "takeWhile (\<lambda>c. c \<noteq> newline) (cstr (record_line t @ [newline])) = record_line t"
    using assms(3,4) by (simp add: cstr_id takeWhile_upto)
  moreover have "takeWhile (\<lambda>c. c \<noteq> newline) (cstr (record_line t)) = record_line t"
    using assms(3,4) by (simp add: cstr_id takeWhile_all)
  moreover have "t = \<lparr>title = title t, artist = artist t, album = album t, duration = duration t\<rparr>"
    by simp
  ultimately show "load_record pl (record_line t @ [newline]) = pl @ [t]"
    and "load_record pl (record_line t) = pl @ [t]"
    using assms(2) read_record_line [OF assms(1)]
    by (simp_all add: load_record_def add_track_def atoi_printf_d)
qed

lemma load_records_save_record:
  assumes "length (save_record t) \<le> MAX_LINE" and "title t \<noteq> []"
    and "newline \<notin> set (title t)" "newline \<notin> set (artist t)" "newline \<notin> set (album t)"
    and "NUL \<notin> set (title t)" "NUL \<notin> set (artist t)" "NUL \<notin> set (album t)"
  shows "load_records pl (save_record t @ rest) = load_records (pl @ [t]) rest"
proof -
  have len: "length (record_line t) < MAX_LINE"
    using assms(1) by (simp add: save_record_line)
  have nl: "newline \<notin> set (record_line t)"
    using assms by (intro record_line_chars) auto
  have nul: "NUL \<notin> set (record_line t)"
    using assms by (intro record_line_chars) auto
  have "load_records pl (save_record t @ rest) = load_records pl (record_line t @ newline # rest)"
    by (simp add: save_record_line)
  also have "\<dots> = load_records (pl @ [t]) rest"
    using load_records_line [OF nl len, of pl rest] load_record_line [OF len assms(2) nl nul, of pl]
    by simp
  finally show ?thesis .
qed

lemma load_records_saved:
  assumes "\<forall>t\<in>set pl. length (save_record t) \<le> MAX_LINE \<and> title t \<noteq> []
              \<and> newline \<notin> set (title t) \<union> set (artist t) \<union> set (album t)
              \<and> NUL \<notin> set (title t) \<union> set (artist t) \<union> set (album t)"
  shows "load_records acc (concat (map save_record pl)) = acc @ pl"
  using assms
proof (induction pl arbitrary: acc)
  case Nil
  show ?case
    by (simp add: load_records_Nil)
next
  case (Cons t pl)
  have "load_records acc (save_record t @ concat (map save_record pl))
          = load_records (acc @ [t]) (concat (map save_record pl))"
    using Cons.prems by (intro load_records_save_record) auto
  also have "\<dots> = (acc @ [t]) @ pl"
    using Cons.prems by (intro Cons.IH) auto
  finally show ?case
    by simp
qed

lemma header_line:
  "fgets MAX_LINE (csv_header @ rest) = Some (csv_header, rest)"
  using fgets_bytes_line [of "''title,artist,album,duration_seconds''" "MAX_LINE - 1" rest]
  by (simp add: fgets_def csv_header_def MAX_LINE_def)

lemma header_words:
  "strstr (cstr csv_header) ''title'' \<noteq> None" "strstr (cstr csv_header) ''artist'' \<noteq> None"
  by code_simp+

section \<open>Lines of unquoted fields\<close>

lemma csv_read_field_plain:
  assumes "plain_field s" "length s < MAX_LINE"
  shows "csv_read_field (Some (s @ comma # r)) = (s, if r = [] then None else Some r)"
  using csv_read_field_escape [OF assms(2), of r] assms(1)
  by (simp add: csv_escape_field_def plain_field_def)

lemma csv_read_field_plain_last:
  assumes "plain_field s" "length s < MAX_LINE"
  shows "csv_read_field (Some s) = (s, None)"
  using csv_read_field_escape_alone [OF assms(2)] assms(1)
  by (simp add: csv_escape_field_def plain_field_def)

lemma line_of_buffer:
  assumes "newline \<notin> set l" "NUL \<notin> set l"
  shows "takeWhile (\<lambda>c. c \<noteq> newline) (cstr l) = l"
    and "takeWhile (\<lambda>c. c \<noteq> newline) (cstr (l @ [newline])) = l"
  using assms by (simp_all add: cstr_id takeWhile_all takeWhile_upto)

lemma load_record_fields:
  assumes "plain_field a" "plain_field b" "plain_field c" "plain_field d" "a \<noteq> []"
    and "length a < MAX_LINE" "length b < MAX_LINE" "length c < MAX_LINE" "length d < MAX_LINE"
  shows "load_record pl a = add_track pl a [] [] 0"
    and "load_record pl (a @ comma # b) = add_track pl a b [] 0"
    and "load_record pl (a @ comma # b @ comma # c) = add_track pl a b c 0"
    and "load_record pl (a @ comma # b @ comma # c @ comma # d) = add_track pl a b c (atoi d)"
proof -
  note len = assms(6-9)
  have nl: "newline \<notin> set a" "NUL \<notin> set a" "newline \<notin> set b" "NUL \<notin> set b"
      "newline \<notin> set c" "NUL \<notin> set c" "newline \<notin> set d" "NUL \<notin> set d"
    using assms(1-4) by (simp_all add: plain_field_def)
  have empty: "csv_read_field None = ([], None)" "csv_read_field (Some []) = ([], None)"
    by (simp_all add: csv_read_field_def)
  have zero: "atoi [] = 0"
    by (simp add: atoi_def strtol_def)
  have ra: "csv_read_field (Some (a @ comma # r)) = (a, if r = [] then None else Some r)" for r
    using assms(1) len(1) by (rule csv_read_field_plain)
  have rb: "csv_read_field (Some (b @ comma # r)) = (b, if r = [] then None else Some r)" for r
    using assms(2) len(2) by (rule csv_read_field_plain)
  have rc: "csv_read_field (Some (c @ comma # r)) = (c, if r = [] then None else Some r)" for r
    using assms(3) len(3) by (rule csv_read_field_plain)
  have la: "csv_read_field (Some a) = (a, None)"
    using assms(1) len(1) by (rule csv_read_field_plain_last)
  have lb: "csv_read_field (Some b) = (b, None)"
    using assms(2) len(2) by (rule csv_read_field_plain_last)
  have lc: "csv_read_field (Some c) = (c, None)"
    using assms(3) len(3) by (rule csv_read_field_plain_last)
  have ld: "csv_read_field (Some d) = (d, None)"
    using assms(4) len(4) by (rule csv_read_field_plain_last)
  show "load_record pl a = add_track pl a [] [] 0"
    using assms(5) nl by (simp add: load_record_def line_of_buffer la empty zero)
  have "takeWhile (\<lambda>x. x \<noteq> newline) (cstr (a @ comma # b)) = a @ comma # b"
    using nl by (intro line_of_buffer) auto
  then show "load_record pl (a @ comma # b) = add_track pl a b [] 0"
    using assms(5) by (cases "b = []") (simp_all add: load_record_def ra lb empty zero)
  have "takeWhile (\<lambda>x. x \<noteq> newline) (cstr (a @ comma # b @ comma # c)) = a @ comma # b @ comma # c"
    using nl by (intro line_of_buffer) auto
  then show "load_record pl (a @ comma # b @ comma # c) = add_track pl a b c 0"
    using assms(5) by (cases "c = []") (simp_all add: load_record_def ra rb lc empty zero)
  have "takeWhile (\<lambda>x. x \<noteq> newline) (cstr (a @ comma # b @ comma # c @ comma # d))
          = a @ comma # b @ comma # c @ comma # d"
    using nl by (intro line_of_buffer) auto
  then show "load_record pl (a @ comma # b @ comma # c @ comma # d) = add_track pl a b c (atoi d)"
    using assms(5) by (cases "d = []") (simp_all add: load_record_def ra rb rc ld empty zero)
qed

section \<open>Removing a track\<close>

lemma shift_left_eq:
  "n = length xs \<Longrightarrow> 0 < i \<Longrightarrow> i \<le> n \<Longrightarrow>
   shift_left i n xs = take (i - 1) xs @ drop i xs @ [last xs]"
proof (induction i n xs rule: shift_left.induct)
  case (1 i n items)
  show ?case
  proof (cases "i < n")
    case True
    let ?ys = "items[i - 1 := items ! i]"
    from True 1 have len: "n = length ?ys" and i: "0 < Suc i" "Suc i \<le> n"
      by auto
    have "shift_left i n items = shift_left (Suc i) n ?ys"
      using True by (subst shift_left.simps) simp
    also have "\<dots> = take i ?ys @ drop (Suc i) ?ys @ [last ?ys]"
      using "1.IH" [OF True len i] by simp
    also have "take i ?ys = take (i - 1) items @ [items ! i]"
      using True 1 by (cases i) (auto simp: take_Suc_conv_app_nth)
    also have "drop (Suc i) ?ys = drop (Suc i) items"
      by simp
    also have "last ?ys = last items"
    proof -
      from True "1.prems" have "items \<noteq> []" "?ys \<noteq> []" "i - 1 \<noteq> length items - 1"
        by auto
      then show ?thesis
        by (simp add: last_conv_nth)
    qed
    finally show ?thesis
      using True 1 by (simp add: Cons_nth_drop_Suc)
  next
    case False
    with 1 have "i = length items" and "items \<noteq> []"
      by auto
    moreover have "shift_left i n items = items"
      using False by (subst shift_left.simps) simp
    moreover have "take (length items - 1) items @ [last items] = items"
      using \<open>items \<noteq> []\<close> append_butlast_last_id [of items]
      by (simp add: butlast_conv_take)
    ultimately show ?thesis
      by simp
  qed
qed

lemma remove_track_at_eq:
  assumes "idx < length pl"
  shows "remove_track_at pl idx = take idx pl @ drop (Suc idx) pl"
proof -
  let ?xs = "pl[idx := free_track (pl ! idx)]"
  have "shift_left (idx + 1) (length pl) ?xs = take idx ?xs @ drop (Suc idx) ?xs @ [last ?xs]"
    using assms shift_left_eq [of "length pl" ?xs "idx + 1"] by simp
  then have "take (length pl - 1) (shift_left (idx + 1) (length pl) ?xs)
             = take idx pl @ drop (Suc idx) pl"
    using assms by simp
  then show ?thesis
    using assms by (simp add: remove_track_at_def)
qed

text \<open>
  C3: removing index \<open>i\<close> below the size leaves one track fewer, the tracks before \<open>i\<close>
  where they were and the tracks after \<open>i\<close> one place to the left; an index at or beyond
  the size (the index is unsigned, so there is none below 0) changes nothing.
\<close>

theorem remove_track_at_spec:
  "(i < length pl \<longrightarrow>
      length (remove_track_at pl i) = length pl - 1
      \<and> (\<forall>j. j < i \<longrightarrow> remove_track_at pl i ! j = pl ! j)
      \<and> (\<forall>j. i \<le> j \<and> j < length pl - 1 \<longrightarrow> remove_track_at pl i ! j = pl ! Suc j))
   \<and> (length pl \<le> i \<longrightarrow> remove_track_at pl i = pl)"
proof (cases "i < length pl")
  case True
  have eq: "remove_track_at pl i = take i pl @ drop (Suc i) pl"
    using True by (rule remove_track_at_eq)
  have "length (remove_track_at pl i) = length pl - 1"
    using True by (simp add: eq)
  moreover have "remove_track_at pl i ! j = pl ! j" if "j < i" for j
    using that True by (simp add: eq nth_append)
  moreover have "remove_track_at pl i ! j = pl ! Suc j" if "i \<le> j" "j < length pl - 1" for j
    using that True by (simp add: eq nth_append min_def)
  ultimately show ?thesis
    using True by simp
next
  case False
  then show ?thesis
    by (simp add: remove_track_at_def)
qed

theorem remove_track_at_spec_witness:
  "length (remove_track_at [song_a, song_b, song_c] 1) = 2
   \<and> remove_track_at [song_a, song_b, song_c] 1 ! 0 = song_a
   \<and> remove_track_at [song_a, song_b, song_c] 1 ! 1 = song_c
   \<and> remove_track_at [song_a, song_b, song_c] 3 = [song_a, song_b, song_c]"
proof -
  let ?pl = "[song_a, song_b, song_c]"
  have in_range: "(1::nat) < length ?pl" and out_of_range: "length ?pl \<le> (3::nat)"
    by simp_all
  from remove_track_at_spec [of 1 ?pl] in_range
  have "length (remove_track_at ?pl 1) = length ?pl - 1"
    and "\<forall>j. j < 1 \<longrightarrow> remove_track_at ?pl 1 ! j = ?pl ! j"
    and "\<forall>j. 1 \<le> j \<and> j < length ?pl - 1 \<longrightarrow> remove_track_at ?pl 1 ! j = ?pl ! Suc j"
    by blast+
  moreover from remove_track_at_spec [of 3 ?pl] out_of_range
  have "remove_track_at ?pl 3 = ?pl"
    by blast
  ultimately show ?thesis
    by simp
qed

section \<open>Searching\<close>

lemma of_char_tolower:
  "(of_char (tolower c) :: nat) =
     (if 65 \<le> (of_char c :: nat) \<and> (of_char c :: nat) \<le> 90 then of_char c + 32 else of_char c)"
  by (simp add: tolower_def)

lemma tolower_eq_iff: "tolower a = tolower b \<longleftrightarrow> same_letter a b"
proof -
  have "tolower a = tolower b \<longleftrightarrow> (of_char (tolower a) :: nat) = of_char (tolower b)"
    by simp
  also have "\<dots> \<longleftrightarrow> same_letter a b"
    unfolding of_char_tolower same_letter_def is_upper_def
    using of_char_eq_iff [of a b, where ?'a = nat] by auto
  finally show ?thesis .
qed

lemma map_tolower_eq_iff:
  "map tolower ms = map tolower needle \<longleftrightarrow> list_all2 same_letter ms needle"
proof -
  have "list_all2 same_letter ms needle = list_all2 (\<lambda>x y. tolower x = tolower y) ms needle"
    by (simp add: tolower_eq_iff)
  also have "\<dots> = list_all2 (=) (map tolower ms) (map tolower needle)"
    by (simp add: list.rel_map)
  finally show ?thesis
    by (simp add: list.rel_eq)
qed

lemma sublist_tolower:
  "sublist (map tolower needle) (map tolower s) \<longleftrightarrow> ci_substring needle s"
proof
  assume "sublist (map tolower needle) (map tolower s)"
  then obtain ps' ss' where "map tolower s = ps' @ map tolower needle @ ss'"
    by (auto simp: sublist_def)
  then obtain ps ms ss where "s = ps @ ms @ ss" "map tolower ms = map tolower needle"
    by (metis map_eq_append_conv)
  then show "ci_substring needle s"
    by (auto simp: ci_substring_def map_tolower_eq_iff)
next
  assume "ci_substring needle s"
  then obtain ps ms ss where "s = ps @ ms @ ss" "map tolower ms = map tolower needle"
    by (auto simp: ci_substring_def map_tolower_eq_iff)
  then have "map tolower s = map tolower ps @ map tolower needle @ map tolower ss"
    by simp
  then show "sublist (map tolower needle) (map tolower s)"
    unfolding sublist_def by blast
qed

lemma search_from_eq:
  "search_from i ts (str_tolower_copy needle)
     = filter (\<lambda>(k, t). track_matches needle t) (zip [i..<i + length ts] ts)"
proof (induction ts arbitrary: i)
  case Nil
  show ?case by simp
next
  case (Cons t ts)
  have upt: "[i..<i + length (t # ts)] = i # [Suc i..<Suc i + length ts]"
    using upt_conv_Cons [of i "i + length (t # ts)"] by simp
  let ?low = "str_tolower_copy needle"
  let ?P = "\<lambda>(k, t). track_matches needle t"
  let ?rest = "zip [Suc i..<Suc i + length ts] ts"
  have m: "(strstr (str_tolower_copy (title t)) ?low \<noteq> None
            \<or> strstr (str_tolower_copy (artist t)) ?low \<noteq> None
            \<or> strstr (str_tolower_copy (album t)) ?low \<noteq> None) = track_matches needle t"
    by (simp only: strstr_sublist str_tolower_copy_def sublist_tolower track_matches_def)
  have "search_from i (t # ts) ?low =
          (if track_matches needle t then (i, t) # search_from (Suc i) ts ?low
           else search_from (Suc i) ts ?low)"
    by (simp only: search_from.simps m)
  also have "\<dots> = (if track_matches needle t then (i, t) # filter ?P ?rest else filter ?P ?rest)"
    by (simp only: Cons.IH)
  also have "\<dots> = filter ?P (zip (i # [Suc i..<Suc i + length ts]) (t # ts))"
    by simp
  finally show ?case
    by (simp only: upt)
qed

text \<open>
  C4: the search prints exactly the tracks, each with its position and in playlist order,
  in whose title, artist or album the needle occurs as an ASCII case-insensitive
  substring; when there is none it prints the one line saying so and returns as usual.
\<close>

theorem search_playlist_spec:
  "search_playlist pl needle =
     map (\<lambda>(i, t). Print_track i t)
         (filter (\<lambda>(i, t). track_matches needle t) (zip [0..<length pl] pl))
     @ (if list_ex (track_matches needle) pl then [] else [No_matches needle])"
proof -
  let ?hits = "filter (\<lambda>(i, t). track_matches needle t) (zip [0..<length pl] pl)"
  have hits: "search_from 0 pl (str_tolower_copy needle) = ?hits"
    using search_from_eq [of 0 pl needle] by simp
  have "snd ` set ?hits = {t \<in> set pl. track_matches needle t}"
    by (force simp: set_zip in_set_conv_nth)
  then have "?hits = [] \<longleftrightarrow> \<not> list_ex (track_matches needle) pl"
    by (auto simp: list_ex_iff filter_empty_conv)
  then show ?thesis
    by (simp add: search_playlist_def hits Let_def)
qed

theorem search_playlist_spec_witness:
  "search_playlist [song_a, song_b, song_c] ''aRT''
     = [Print_track 0 song_a, Print_track 1 song_b]
   \<and> track_matches ''aRT'' song_a \<and> track_matches ''aRT'' song_b
   \<and> \<not> track_matches ''aRT'' song_c"
proof -
  have run: "search_playlist [song_a, song_b, song_c] ''aRT''
               = [Print_track 0 song_a, Print_track 1 song_b]"
    by code_simp
  have "[0..<length [song_a, song_b, song_c]] = [0, 1, 2]"
    by (simp add: upt_rec)
  with search_playlist_spec [of "[song_a, song_b, song_c]" "''aRT''"] run
  show ?thesis
    by (auto split: if_splits)
qed

lemma ci_substring_Nil: "ci_substring [] s"
  by (auto simp: ci_substring_def intro: exI [of _ "[]"])

text \<open>
  C10: the empty needle matches every track: all tracks are printed, in order, with their
  positions (for an empty playlist only the line saying that nothing matched).
\<close>

theorem search_playlist_empty:
  "search_playlist pl [] =
     map (\<lambda>(i, t). Print_track i t) (zip [0..<length pl] pl)
     @ (if pl = [] then [No_matches []] else [])"
proof -
  have "search_from i ts (str_tolower_copy []) = zip [i..<i + length ts] ts" for i ts
    using search_from_eq [of i ts "[]"] by (simp add: track_matches_def ci_substring_Nil)
  from this [of 0 pl] show ?thesis
    by (simp add: search_playlist_def Let_def)
qed

theorem search_playlist_empty_witness:
  "search_playlist [song_a, song_b] [] = [Print_track 0 song_a, Print_track 1 song_b]
   \<and> search_playlist [] [] = [No_matches []]"
  using search_playlist_empty [of "[song_a, song_b]"] search_playlist_empty [of "[]"]
  by (simp add: upt_rec)

section \<open>Loading appends\<close>

lemma load_record_append: "load_record pl buf = pl @ load_record [] buf"
  by (simp add: load_record_def add_track_def split: prod.splits)

lemma load_records_append: "load_records pl f = pl @ load_records [] f"
proof (induction f arbitrary: pl rule: length_induct)
  case (1 f)
  show ?case
  proof (cases "fgets MAX_LINE f")
    case None
    then show ?thesis
      by (simp add: load_records.simps [of _ f])
  next
    case (Some a)
    obtain buf rest where a: "a = (buf, rest)"
      by (cases a)
    from Some a have "length rest < length f"
      by (auto simp: MAX_LINE_def intro: fgets_consumes)
    with 1 have IH: "load_records q rest = q @ load_records [] rest" for q
      by blast
    have step: "load_records q f = load_records (load_record q buf) rest" for q
      using Some a by (simp add: load_records.simps [of _ f])
    have "load_records pl f = load_record pl buf @ load_records [] rest"
      by (simp only: step IH [of "load_record pl buf"])
    also have "\<dots> = pl @ load_record [] buf @ load_records [] rest"
      using load_record_append [of pl buf] by simp
    also have "load_record [] buf @ load_records [] rest = load_records [] f"
      by (simp only: step IH [of "load_record [] buf"])
    finally show ?thesis .
  qed
qed

lemma load_records_buffers:
  "load_records pl f = pl @ concat (map (load_record []) (read_buffers f))"
proof (induction f arbitrary: pl rule: length_induct)
  case (1 f)
  show ?case
  proof (cases "fgets MAX_LINE f")
    case None
    then show ?thesis
      by (simp add: load_records.simps [of _ f] read_buffers.simps [of f])
  next
    case (Some a)
    obtain buf rest where a: "a = (buf, rest)"
      by (cases a)
    from Some a have "length rest < length f"
      by (auto simp: MAX_LINE_def intro: fgets_consumes)
    with 1 have IH: "load_records q rest = q @ concat (map (load_record []) (read_buffers rest))" for q
      by blast
    have "load_records pl f = load_records (load_record pl buf) rest"
      using Some a by (simp add: load_records.simps [of _ f])
    also have "\<dots> = load_record pl buf @ concat (map (load_record []) (read_buffers rest))"
      by (rule IH)
    also have "\<dots> = pl @ load_record [] buf @ concat (map (load_record []) (read_buffers rest))"
      using load_record_append [of pl buf] by simp
    also have "load_record [] buf @ concat (map (load_record []) (read_buffers rest))
                 = concat (map (load_record []) (read_buffers f))"
      using Some a by (simp add: read_buffers.simps [of f])
    finally show ?thesis .
  qed
qed

lemma read_buffers_lines:
  assumes "\<forall>l\<in>set ls. newline \<notin> set l \<and> length l + 1 < MAX_LINE"
  shows "read_buffers (concat (map (\<lambda>l. l @ [newline]) ls)) = map (\<lambda>l. l @ [newline]) ls"
  using assms
proof (induction ls)
  case Nil
  show ?case
    by (simp add: read_buffers.simps [of "[]"] fgets_def)
next
  case (Cons l ls)
  let ?rest = "concat (map (\<lambda>l. l @ [newline]) ls)"
  from Cons.prems have "newline \<notin> set l" "length l < MAX_LINE - 1"
    by auto
  then have "fgets MAX_LINE (l @ newline # ?rest) = Some (l @ [newline], ?rest)"
    by (simp add: fgets_def fgets_bytes_line)
  then have "read_buffers (l @ newline # ?rest) = (l @ [newline]) # read_buffers ?rest"
    by (subst read_buffers.simps) simp
  with Cons show ?case
    by simp
qed

lemma load_records_lines:
  assumes "\<forall>l\<in>set ls. newline \<notin> set l \<and> length l + 1 < MAX_LINE"
  shows "load_records pl (concat (map (\<lambda>l. l @ [newline]) ls))
           = pl @ concat (map (load_record []) ls)"
proof -
  have "map (load_record []) (map (\<lambda>l. l @ [newline]) ls) = map (load_record []) ls"
    using assms by (simp add: load_record_strip_newline)
  then show ?thesis
    by (simp only: load_records_buffers read_buffers_lines [OF assms])
qed

lemma sublist_cstr_newline:
  assumes "newline \<notin> set w" "w \<noteq> []"
  shows "sublist w (cstr (l @ [newline])) \<longleftrightarrow> sublist w (cstr l)"
proof (cases "NUL \<in> set l")
  case True
  then have "cstr (l @ [newline]) = cstr l"
    by (simp add: cstr_def takeWhile_append1)
  then show ?thesis
    by simp
next
  case False
  then show ?thesis
    using assms by (simp add: cstr_id sublist_snoc)
qed

lemma load_playlist_csv_buffers:
  assumes "fgets MAX_LINE g = Some (buf, rest)"
  shows "load_playlist_csv pl (Some g)
           = (1, pl @ concat (map (load_record [])
                   (read_buffers (if strstr (cstr buf) ''title'' = None
                                     \<or> strstr (cstr buf) ''artist'' = None then g else rest))))"
  using assms by (simp add: load_playlist_csv_def load_records_buffers)

lemma load_playlist_csv_lines:
  assumes "ls \<noteq> []" and "\<forall>l\<in>set ls. newline \<notin> set l \<and> length l + 1 < MAX_LINE"
  shows "load_playlist_csv pl (Some (concat (map (\<lambda>l. l @ [newline]) ls)))
           = (1, pl @ concat (map (load_record [])
                   (if sublist ''title'' (cstr (hd ls)) \<and> sublist ''artist'' (cstr (hd ls))
                    then tl ls else ls)))"
proof -
  from assms(1) obtain l rs where ls: "ls = l # rs"
    by (cases ls) auto
  let ?rest = "concat (map (\<lambda>l. l @ [newline]) rs)"
  from assms(2) ls have l: "newline \<notin> set l" "length l < MAX_LINE - 1"
    and rs: "\<forall>l\<in>set rs. newline \<notin> set l \<and> length l + 1 < MAX_LINE"
    by auto
  from l have buf: "fgets MAX_LINE (l @ newline # ?rest) = Some (l @ [newline], ?rest)"
    by (simp add: fgets_def fgets_bytes_line)
  have words: "strstr (cstr (l @ [newline])) ''title'' = None \<longleftrightarrow> \<not> sublist ''title'' (cstr l)"
    "strstr (cstr (l @ [newline])) ''artist'' = None \<longleftrightarrow> \<not> sublist ''artist'' (cstr l)"
    by (simp_all add: strstr_None sublist_cstr_newline)
  have all: "load_records pl (l @ newline # ?rest) = pl @ concat (map (load_record []) (l # rs))"
    using load_records_lines [OF assms(2), of pl] ls by simp
  have tail: "load_records pl ?rest = pl @ concat (map (load_record []) rs)"
    by (rule load_records_lines [OF rs])
  show ?thesis
    using all tail by (auto simp: ls load_playlist_csv_def buf words)
qed

text \<open>
  C9: loading into a playlist that already holds tracks leaves every one of them at its
  position and puts the decoded tracks behind them, in the order of the file: the result
  is the old playlist followed by the records of the buffers that \<^verbatim>\<open>fgets\<close> delivers, one
  after the other, from the first line or, when that is a header, from the line after
  it.  For a file of lines that fit the buffer these are the records of the lines, in the
  order of the lines.
\<close>

theorem load_playlist_csv_appends:
  "snd (load_playlist_csv pl f) = pl @ snd (load_playlist_csv [] f)
   \<and> fst (load_playlist_csv pl f) = fst (load_playlist_csv [] f)
   \<and> (\<forall>i. i < length pl \<longrightarrow> snd (load_playlist_csv pl f) ! i = pl ! i)
   \<and> (\<forall>g buf rest. fgets MAX_LINE g = Some (buf, rest) \<longrightarrow>
         load_records pl g = pl @ load_record [] buf @ load_records [] rest)
   \<and> (\<forall>g buf rest. fgets MAX_LINE g = Some (buf, rest) \<longrightarrow>
         load_playlist_csv pl (Some g)
           = (1, pl @ concat (map (load_record [])
                   (read_buffers (if strstr (cstr buf) ''title'' = None
                                     \<or> strstr (cstr buf) ''artist'' = None then g else rest)))))
   \<and> (\<forall>ls. ls \<noteq> [] \<and> (\<forall>l\<in>set ls. newline \<notin> set l \<and> length l + 1 < MAX_LINE) \<longrightarrow>
         load_playlist_csv pl (Some (concat (map (\<lambda>l. l @ [newline]) ls)))
           = (1, pl @ concat (map (load_record [])
                   (if sublist ''title'' (cstr (hd ls)) \<and> sublist ''artist'' (cstr (hd ls))
                    then tl ls else ls))))"
proof -
  have a: "snd (load_playlist_csv pl f) = pl @ snd (load_playlist_csv [] f)"
    using load_records_append [of pl]
    by (auto simp: load_playlist_csv_def split: option.splits prod.splits)
  have b: "fst (load_playlist_csv pl f) = fst (load_playlist_csv [] f)"
    by (simp add: load_playlist_csv_def split: option.splits prod.splits)
  have c: "snd (load_playlist_csv pl f) ! i = pl ! i" if "i < length pl" for i
    using that by (simp add: a nth_append)
  have d: "load_records pl g = pl @ load_record [] buf @ load_records [] rest"
    if "fgets MAX_LINE g = Some (buf, rest)" for g buf rest
  proof -
    have "load_records pl g = pl @ load_records [] g"
      by (rule load_records_append)
    also have "load_records [] g = load_records (load_record [] buf) rest"
      using that by (simp add: load_records.simps [of _ g])
    also have "\<dots> = load_record [] buf @ load_records [] rest"
      by (rule load_records_append)
    finally show ?thesis .
  qed
  from a b c d load_playlist_csv_buffers [of _ _ _ pl] load_playlist_csv_lines [of _ pl]
  show ?thesis
    by (intro conjI allI impI) blast+
qed

theorem load_playlist_csv_appends_witness:
  "load_playlist_csv [song_a]
     (Some (concat (map (\<lambda>l. l @ [newline]) [header_text, song_b_line, song_c_line])))
     = (1, [song_a, song_b, song_c])
   \<and> load_playlist_csv [song_a]
     (Some (concat (map (\<lambda>l. l @ [newline]) [song_c_line, song_b_line])))
     = (1, [song_a, song_c, song_b])"
proof -
  let ?with = "[header_text, song_b_line, song_c_line]"
  let ?without = "[song_c_line, song_b_line]"
  have pre: "?with \<noteq> [] \<and> (\<forall>l\<in>set ?with. newline \<notin> set l \<and> length l + 1 < MAX_LINE)"
      "?without \<noteq> [] \<and> (\<forall>l\<in>set ?without. newline \<notin> set l \<and> length l + 1 < MAX_LINE)"
    by (simp_all add: header_text_def song_b_line_def song_c_line_def MAX_LINE_def)
  have words: "sublist ''title'' (cstr (hd ?with)) \<and> sublist ''artist'' (cstr (hd ?with))"
      "\<not> sublist ''title'' (cstr (hd ?without))"
    by code_simp+
  have recs: "load_record [] song_b_line = [song_b]" "load_record [] song_c_line = [song_c]"
    by code_simp+
  from load_playlist_csv_appends [of "[song_a]" None] pre(1)
  have "load_playlist_csv [song_a] (Some (concat (map (\<lambda>l. l @ [newline]) ?with)))
          = (1, [song_a] @ concat (map (load_record [])
                  (if sublist ''title'' (cstr (hd ?with)) \<and> sublist ''artist'' (cstr (hd ?with))
                   then tl ?with else ?with)))"
    by blast
  with words(1) recs
  have first: "load_playlist_csv [song_a] (Some (concat (map (\<lambda>l. l @ [newline]) ?with)))
                 = (1, [song_a, song_b, song_c])"
    by (simp only: simp_thms if_True list.sel list.map concat.simps append.simps)
  from load_playlist_csv_appends [of "[song_a]" None] pre(2)
  have "load_playlist_csv [song_a] (Some (concat (map (\<lambda>l. l @ [newline]) ?without)))
          = (1, [song_a] @ concat (map (load_record [])
                  (if sublist ''title'' (cstr (hd ?without)) \<and> sublist ''artist'' (cstr (hd ?without))
                   then tl ?without else ?without)))"
    by blast
  with words(2) recs
  have second: "load_playlist_csv [song_a] (Some (concat (map (\<lambda>l. l @ [newline]) ?without)))
                  = (1, [song_a, song_c, song_b])"
    by (simp only: simp_thms if_False list.sel list.map concat.simps append.simps)
  from first second show ?thesis
    by blast
qed

section \<open>Shuffling\<close>

lemma shuffle_loop_fold:
  "shuffle_loop rnd k i items =
     fold (\<lambda>i' ys. swap_items i' (rnd (k + (i - i')) mod (i' + 1)) ys) (rev [1..<Suc i]) items"
proof (induction i arbitrary: k items)
  case 0
  show ?case by simp
next
  case (Suc i)
  let ?ys = "swap_items (Suc i) (rnd k mod (Suc i + 1)) items"
  have "shuffle_loop rnd k (Suc i) items = shuffle_loop rnd (Suc k) i ?ys"
    by (simp add: swap_items_def Let_def)
  also have "\<dots> = fold (\<lambda>i' ys. swap_items i' (rnd (Suc k + (i - i')) mod (i' + 1)) ys)
                        (rev [1..<Suc i]) ?ys"
    by (rule Suc.IH)
  also have "\<dots> = fold (\<lambda>i' ys. swap_items i' (rnd (k + (Suc i - i')) mod (i' + 1)) ys)
                        (rev [1..<Suc i]) ?ys"
    by (rule fold_cong) (auto simp: Suc_diff_le)
  also have "\<dots> = fold (\<lambda>i' ys. swap_items i' (rnd (k + (Suc i - i')) mod (i' + 1)) ys)
                        (rev [1..<Suc (Suc i)]) items"
    by simp
  finally show ?case .
qed

lemma mset_swap_items:
  "i < length xs \<Longrightarrow> j < length xs \<Longrightarrow> mset (swap_items i j xs) = mset xs"
  unfolding swap_items_def by (rule mset_swap)

lemma length_swap_items: "length (swap_items i j xs) = length xs"
  by (simp add: swap_items_def)

lemma mset_shuffle_loop:
  "i < length items \<Longrightarrow> mset (shuffle_loop rnd k i items) = mset items"
proof (induction i arbitrary: k items)
  case 0
  show ?case by simp
next
  case (Suc i)
  let ?j = "rnd k mod (Suc i + 1)"
  let ?ys = "swap_items (Suc i) ?j items"
  have j: "?j < length items"
    using Suc.prems by (simp add: less_le_trans [OF mod_less_divisor])
  have "shuffle_loop rnd k (Suc i) items = shuffle_loop rnd (Suc k) i ?ys"
    by (simp add: swap_items_def Let_def)
  moreover have "mset (shuffle_loop rnd (Suc k) i ?ys) = mset ?ys"
    using Suc.prems by (intro Suc.IH) (simp add: length_swap_items)
  moreover have "mset ?ys = mset items"
    using Suc.prems j by (rule mset_swap_items)
  ultimately show ?case
    by simp
qed

text \<open>
  C6, as amended: the shuffle is the Fisher-Yates procedure with the index picked at step
  \<open>i\<close> being the next value of \<^verbatim>\<open>rand()\<close> modulo \<open>i + 1\<close>, an index at or before \<open>i\<close>;
  the result is a rearrangement of the playlist, and a playlist of fewer than two tracks
  is returned as it is.
\<close>

theorem shuffle_playlist_fisher_yates:
  "shuffle_playlist gen now pl
     = fisher_yates (\<lambda>i. gen now (length pl - 1 - i) mod (i + 1)) pl
   \<and> (\<forall>i. gen now (length pl - 1 - i) mod (i + 1) \<le> i)
   \<and> mset (shuffle_playlist gen now pl) = mset pl
   \<and> (length pl < 2 \<longrightarrow> shuffle_playlist gen now pl = pl)"
proof -
  have a: "shuffle_playlist gen now pl
             = fisher_yates (\<lambda>i. gen now (length pl - 1 - i) mod (i + 1)) pl"
  proof (cases "length pl < 2")
    case True
    then have "[1..<length pl] = []"
      by simp
    with True show ?thesis
      by (simp add: shuffle_playlist_def fisher_yates_def)
  next
    case False
    then obtain n where n: "length pl = Suc n"
      by (cases "length pl") auto
    have "shuffle_playlist gen now pl = shuffle_loop (gen now) 0 n pl"
      using False n by (simp add: shuffle_playlist_def)
    also have "\<dots> = fold (\<lambda>i' ys. swap_items i' (gen now (0 + (n - i')) mod (i' + 1)) ys)
                          (rev [1..<Suc n]) pl"
      by (rule shuffle_loop_fold)
    also have "\<dots> = fisher_yates (\<lambda>i. gen now (length pl - 1 - i) mod (i + 1)) pl"
      by (simp add: fisher_yates_def n)
    finally show ?thesis .
  qed
  have b: "gen now (length pl - 1 - i) mod (i + 1) \<le> i" for i
    using mod_less_divisor [of "i + 1" "gen now (length pl - 1 - i)"] by simp
  have c: "mset (shuffle_playlist gen now pl) = mset pl"
    by (simp add: shuffle_playlist_def mset_shuffle_loop)
  have d: "length pl < 2 \<longrightarrow> shuffle_playlist gen now pl = pl"
    by (simp add: shuffle_playlist_def)
  from a b c d show ?thesis
    by blast
qed

theorem shuffle_playlist_fisher_yates_witness:
  "shuffle_playlist (\<lambda>seed k. 7) 0 [song_a, song_b, song_c] = [song_a, song_c, song_b]
   \<and> shuffle_playlist (\<lambda>seed k. 7) 0 [song_a] = [song_a]"
proof -
  let ?pl = "[song_a, song_b, song_c]"
  have run: "fisher_yates (\<lambda>i. (\<lambda>seed k. 7) (0 :: 32 word) (length ?pl - 1 - i) mod (i + 1)) ?pl
               = [song_a, song_c, song_b]"
    by code_simp
  from shuffle_playlist_fisher_yates [of "\<lambda>seed k. 7" 0 ?pl]
  have "shuffle_playlist (\<lambda>seed k. 7) 0 ?pl
          = fisher_yates (\<lambda>i. (\<lambda>seed k. 7) (0 :: 32 word) (length ?pl - 1 - i) mod (i + 1)) ?pl"
    by blast
  with run have "shuffle_playlist (\<lambda>seed k. 7) 0 ?pl = [song_a, song_c, song_b]"
    by (simp only:)
  moreover have "length [song_a] < 2"
    by simp
  with shuffle_playlist_fisher_yates [of "\<lambda>seed k. 7" 0 "[song_a]"]
  have "shuffle_playlist (\<lambda>seed k. 7) 0 [song_a] = [song_a]"
    by blast
  ultimately show ?thesis
    by simp
qed

lemma distinct_thirteen: "distinct thirteen_tracks"
  by (simp add: thirteen_tracks_def upt_rec)

lemma card_arrangements:
  assumes "distinct xs"
  shows "card {p. mset p = mset xs} = fact (length xs)"
proof -
  have "{p. mset p = mset xs} = {p. length p = length xs \<and> distinct p \<and> set p \<subseteq> set xs}"
  proof (intro set_eqI iffI; clarsimp)
    fix p assume "mset p = mset xs"
    then show "length p = length xs \<and> distinct p \<and> set p \<subseteq> set xs"
      using assms by (metis mset_eq_length mset_eq_setD mset_eq_imp_distinct_iff order_refl)
  next
    fix p assume p: "length p = length xs" "distinct p" "set p \<subseteq> set xs"
    then have "card (set p) = card (set xs)"
      using assms by (simp add: distinct_card)
    with p have "set p = set xs"
      by (simp add: card_subset_eq)
    with p assms show "mset p = mset xs"
      by (simp add: set_eq_iff_mset_eq_distinct)
  qed
  also have "card \<dots> = \<Prod>{card (set xs) - length xs + 1 .. card (set xs)}"
    using assms by (intro card_lists_distinct_length_eq) (simp_all add: distinct_card)
  also have "\<dots> = fact (length xs)"
    using assms by (simp add: distinct_card fact_prod)
  finally show ?thesis .
qed

text \<open>
  C6 as stated fails: the generator is seeded anew in every call with a 32-bit value, so
  whatever \<^verbatim>\<open>rand()\<close> computes at most \<open>2^32\<close> arrangements can come out, and thirteen
  distinct tracks have \<open>13! > 2^32\<close> of them; some arrangement is never produced.
\<close>

theorem shuffle_playlist_not_uniform:
  "\<forall>gen. \<exists>p. mset p = mset thirteen_tracks
             \<and> (\<forall>now. shuffle_playlist gen now thirteen_tracks \<noteq> p)"
proof
  fix gen :: "32 word \<Rightarrow> nat \<Rightarrow> nat"
  let ?P = "{p. mset p = mset thirteen_tracks}"
  let ?S = "range (\<lambda>now. shuffle_playlist gen now thirteen_tracks)"
  have "card ?S \<le> card (UNIV :: 32 word set)"
    by (rule card_image_le) simp
  also have "\<dots> = 2 ^ 32"
    by (simp add: card_word)
  also have "\<dots> < (fact 13 :: nat)"
    by (simp add: fact_numeral)
  also have "\<dots> = card ?P"
    using card_arrangements [OF distinct_thirteen] by (simp add: thirteen_tracks_def)
  finally have "card ?S < card ?P" .
  moreover have "finite ?S"
    by simp
  ultimately have "\<not> ?P \<subseteq> ?S"
    using card_mono [of ?S ?P] by auto
  then show "\<exists>p. mset p = mset thirteen_tracks
               \<and> (\<forall>now. shuffle_playlist gen now thirteen_tracks \<noteq> p)"
    by auto
qed

section \<open>Round trip\<close>

text \<open>
  C1, as amended: a playlist whose titles are not empty, whose fields hold neither a
  newline nor (being C strings) a NUL, and whose records each fit the line buffer (at
  most 1023 characters before the newline) is read back from its saved file as it was:
  the same tracks with the same fields in the same order.
\<close>

theorem save_load_roundtrip:
  assumes "\<forall>t\<in>set pl. length (save_record t) \<le> MAX_LINE \<and> title t \<noteq> []
              \<and> newline \<notin> set (title t) \<union> set (artist t) \<union> set (album t)
              \<and> NUL \<notin> set (title t) \<union> set (artist t) \<union> set (album t)"
  shows "load_playlist_csv [] (snd (save_playlist_csv True pl)) = (1, pl)"
proof -
  have "load_records [] (concat (map save_record pl)) = [] @ pl"
    using assms by (rule load_records_saved)
  then show ?thesis
    using header_words by (auto simp: save_playlist_csv_def load_playlist_csv_def header_line)
qed

theorem save_load_roundtrip_witness:
  "load_playlist_csv [] (snd (save_playlist_csv True [song_a, song_b, song_c]))
     = (1, [song_a, song_b, song_c])"
proof -
  have "\<forall>t\<in>set [song_a, song_b, song_c]. length (save_record t) \<le> MAX_LINE \<and> title t \<noteq> []
          \<and> newline \<notin> set (title t) \<union> set (artist t) \<union> set (album t)
          \<and> NUL \<notin> set (title t) \<union> set (artist t) \<union> set (album t)"
    by code_simp
  then show ?thesis
    by (rule save_load_roundtrip)
qed

lemma untitled_lost:
  "load_playlist_csv [] (snd (save_playlist_csv True [untitled_track])) = (1, [])"
  by code_simp

lemma long_record_split:
  "hd (snd (load_playlist_csv [] (snd (save_playlist_csv True [long_record_track]))))
     = \<lparr>title = replicate 600 (CHR ''a''), artist = replicate 422 (CHR ''b''), album = [],
        duration = 0\<rparr>"
proof -
  let ?a = "replicate 600 (CHR ''a'')"
  let ?b = "replicate 422 (CHR ''b'')"
  let ?l = "?a @ comma # ?b"
  let ?rest = "replicate 178 (CHR ''b'') @ '',Y,5'' @ [newline]"
  have "replicate 600 (CHR ''b'') = ?b @ replicate 178 (CHR ''b'')"
    by (simp add: replicate_add [symmetric])
  moreover have "printf_d 5 = ''5''"
    by code_simp
  ultimately have body: "save_record long_record_track = ?l @ ?rest"
    by (simp add: save_record_def long_record_track_def csv_escape_field_def)
  have "fgets MAX_LINE (?l @ ?rest) = Some (?l, ?rest)"
    using fgets_bytes_full [of ?l "MAX_LINE - 1" ?rest] by (simp add: fgets_def MAX_LINE_def)
  then have "load_records [] (?l @ ?rest) = load_records (load_record [] ?l) ?rest"
    by (subst load_records.simps) simp
  also have "\<dots> = load_record [] ?l @ load_records [] ?rest"
    by (rule load_records_append)
  also have "load_record [] ?l = add_track [] ?a ?b [] 0"
    by (rule load_record_fields(2) [where c = "[]" and d = "[]"])
       (simp_all add: plain_field_def MAX_LINE_def)
  finally have "load_records [] (?l @ ?rest)
      = \<lparr>title = ?a, artist = ?b, album = [], duration = 0\<rparr> # load_records [] ?rest"
    by (simp add: add_track_def)
  moreover have "load_playlist_csv [] (Some (csv_header @ ?l @ ?rest))
                   = (1, load_records [] (?l @ ?rest))"
    using header_words by (auto simp: load_playlist_csv_def header_line)
  ultimately show ?thesis
    by (simp add: save_playlist_csv_def body)
qed

text \<open>
  C1 as stated fails twice.  A track with an empty title is written, but the loader skips
  every record whose first field is empty.  A track whose record is longer than the line
  buffer (here a title and an artist of 600 characters each) is read back in pieces: the
  first 1023 characters of the line become a track of their own.
\<close>

theorem save_load_roundtrip_fails:
  "newline \<notin> set (title untitled_track) \<union> set (artist untitled_track) \<union> set (album untitled_track)
   \<and> load_playlist_csv [] (snd (save_playlist_csv True [untitled_track])) \<noteq> (1, [untitled_track])
   \<and> newline \<notin> set (title long_record_track) \<union> set (artist long_record_track)
        \<union> set (album long_record_track)
   \<and> load_playlist_csv [] (snd (save_playlist_csv True [long_record_track]))
        \<noteq> (1, [long_record_track])"
proof -
  have "newline \<notin> set (title untitled_track) \<union> set (artist untitled_track) \<union> set (album untitled_track)"
    by (simp add: untitled_track_def)
  moreover have "load_playlist_csv [] (snd (save_playlist_csv True [untitled_track])) \<noteq> (1, [untitled_track])"
    by (simp add: untitled_lost)
  moreover have "newline \<notin> set (title long_record_track) \<union> set (artist long_record_track)
        \<union> set (album long_record_track)"
    by (simp add: long_record_track_def)
  moreover have "load_playlist_csv [] (snd (save_playlist_csv True [long_record_track]))
        \<noteq> (1, [long_record_track])"
  proof
    assume "load_playlist_csv [] (snd (save_playlist_csv True [long_record_track]))
              = (1, [long_record_track])"
    with long_record_split have "long_record_track
        = \<lparr>title = replicate 600 (CHR ''a''), artist = replicate 422 (CHR ''b''), album = [],
           duration = 0\<rparr>"
      by simp
    from arg_cong [OF this, of album] have "album long_record_track = []"
      by (simp only: track.select_convs)
    then show False
      by (simp add: long_record_track_def)
  qed
  ultimately show ?thesis
    by blast
qed

section \<open>Escaping a field\<close>

text \<open>
  C2, as amended: a field that holds a comma or a double quote is written between double
  quotes with every double quote of its own doubled, any other field is written as it
  is; and for a field of fewer than 1024 characters (what the reader's buffer holds) the
  reader gives the field back exactly, alone on the line or followed by a comma and
  further fields.
\<close>

theorem csv_escape_field_roundtrip:
  "(comma \<in> set s \<or> dquote \<in> set s \<longrightarrow>
      csv_escape_field s
        = [dquote] @ concat (map (\<lambda>c. if c = dquote then [dquote, dquote] else [c]) s) @ [dquote])
   \<and> (comma \<notin> set s \<and> dquote \<notin> set s \<longrightarrow> csv_escape_field s = s)
   \<and> (length s < MAX_LINE \<longrightarrow>
        csv_read_field (Some (csv_escape_field s)) = (s, None)
        \<and> (\<forall>r. csv_read_field (Some (csv_escape_field s @ comma # r))
                  = (s, if r = [] then None else Some r)))"
  by (simp add: csv_escape_field_def escape_chars_concat [symmetric]
        csv_read_field_escape_alone [unfolded csv_escape_field_def]
        csv_read_field_escape [unfolded csv_escape_field_def])

theorem csv_escape_field_roundtrip_witness:
  "csv_escape_field (title song_c)
     = [dquote] @ ''Say '' @ [dquote, dquote] @ ''Hi'' @ [dquote, dquote] @ '', Bye'' @ [dquote]
   \<and> csv_read_field (Some (csv_escape_field (title song_c))) = (title song_c, None)
   \<and> csv_read_field (Some (csv_escape_field (title song_c) @ '',Zed,,-7''))
        = (title song_c, Some ''Zed,,-7'')
   \<and> csv_escape_field (title song_a) = title song_a
   \<and> csv_read_field (Some (csv_escape_field (title song_a))) = (title song_a, None)"
proof -
  have c: "comma \<in> set (title song_c) \<or> dquote \<in> set (title song_c)"
      "length (title song_c) < MAX_LINE"
    and a: "comma \<notin> set (title song_a) \<and> dquote \<notin> set (title song_a)"
      "length (title song_a) < MAX_LINE"
    by (simp_all add: song_c_def song_a_def MAX_LINE_def)
  from csv_escape_field_roundtrip [of "title song_c"] c
  have "csv_escape_field (title song_c)
          = [dquote] @ concat (map (\<lambda>c. if c = dquote then [dquote, dquote] else [c]) (title song_c))
            @ [dquote]"
    and "csv_read_field (Some (csv_escape_field (title song_c))) = (title song_c, None)"
    and "csv_read_field (Some (csv_escape_field (title song_c) @ comma # ''Zed,,-7''))
           = (title song_c, if ''Zed,,-7'' = [] then None else Some ''Zed,,-7'')"
    by blast+
  moreover from csv_escape_field_roundtrip [of "title song_a"] a
  have "csv_escape_field (title song_a) = title song_a"
    and "csv_read_field (Some (csv_escape_field (title song_a))) = (title song_a, None)"
    by blast+
  ultimately show ?thesis
    by (simp add: song_c_def)
qed

lemma escape_chars_plain: "dquote \<notin> set s \<Longrightarrow> escape_chars s = s"
  by (induction s) auto

text \<open>
  C2 as stated fails for a long field: of a comma followed by 1023 letters the reader
  keeps only what fits its buffer.
\<close>

theorem csv_read_field_truncates:
  "comma \<in> set long_field
   \<and> fst (csv_read_field (Some (csv_escape_field long_field))) \<noteq> long_field"
proof -
  have plain: "dquote \<notin> set long_field" and c: "comma \<in> set long_field"
    by (simp_all add: long_field_def)
  then have esc: "csv_escape_field long_field = dquote # long_field @ [dquote]"
    by (simp add: csv_escape_field_def escape_chars_plain)
  have "fst (csv_read_field (Some (dquote # long_field @ [dquote])))
          = fst (read_quoted 0 (long_field @ [dquote]))"
    by (simp add: csv_read_field_def split: prod.splits)
  moreover have "0 + length (fst (read_quoted 0 (long_field @ [dquote]))) < MAX_LINE"
    using plain by (intro read_quoted_bounded) (simp_all add: MAX_LINE_def)
  moreover have "length long_field = MAX_LINE"
    by (simp add: long_field_def MAX_LINE_def)
  ultimately have "length (fst (csv_read_field (Some (csv_escape_field long_field))))
                     \<noteq> length long_field"
    by (simp add: esc)
  then have "fst (csv_read_field (Some (csv_escape_field long_field))) \<noteq> long_field"
    by auto
  with c show ?thesis
    by simp
qed

section \<open>The header line\<close>

lemma load_record_newline:
  assumes "newline \<notin> set l" "NUL \<notin> set l"
  shows "load_record pl (l @ [newline]) = load_record pl l"
proof -
  have "takeWhile (\<lambda>c. c \<noteq> newline) (cstr (l @ [newline])) = takeWhile (\<lambda>c. c \<noteq> newline) (cstr l)"
    using assms by (simp add: cstr_id takeWhile_upto takeWhile_all)
  then show ?thesis
    by (simp add: load_record_def)
qed

lemma sniff_line:
  assumes "newline \<notin> set l" "NUL \<notin> set l" "length l < MAX_LINE"
  shows "load_playlist_csv pl (Some (l @ newline # rest))
           = (1, if sublist ''title'' l \<and> sublist ''artist'' l then load_records pl rest
                 else load_records (load_record pl l) rest)"
proof -
  let ?f = "l @ newline # rest"
  have data: "load_records pl ?f = load_records (load_record pl l) rest"
    using load_records_line [OF assms(1,3), of pl rest] load_record_newline [OF assms(1,2), of pl]
    by simp
  show ?thesis
  proof (cases "length l + 1 < MAX_LINE")
    case True
    with assms have buf: "fgets MAX_LINE ?f = Some (l @ [newline], rest)"
      by (simp add: fgets_def fgets_bytes_line)
    have words: "strstr (cstr (l @ [newline])) w \<noteq> None \<longleftrightarrow> sublist w l"
      if "newline \<notin> set w" "w \<noteq> []" for w
      using assms that by (simp add: strstr_found cstr_id sublist_snoc)
    have "strstr (cstr (l @ [newline])) ''title'' \<noteq> None \<longleftrightarrow> sublist ''title'' l"
      and "strstr (cstr (l @ [newline])) ''artist'' \<noteq> None \<longleftrightarrow> sublist ''artist'' l"
      by (rule words; simp)+
    then show ?thesis
      using data by (auto simp: load_playlist_csv_def buf)
  next
    case False
    with assms have len: "length l = MAX_LINE - 1"
      by simp
    with assms have buf: "fgets MAX_LINE ?f = Some (l, newline # rest)"
      by (auto simp: fgets_def fgets_bytes_full MAX_LINE_def)
    have "fgets MAX_LINE (newline # rest) = Some ([newline], rest)"
      using fgets_bytes_line [of "[]" "MAX_LINE - 1" rest] by (simp add: fgets_def MAX_LINE_def)
    then have skip: "load_records pl (newline # rest) = load_records pl rest"
      by (subst load_records.simps) (simp add: load_record_blank)
    have "strstr (cstr l) ''title'' \<noteq> None \<longleftrightarrow> sublist ''title'' l"
      and "strstr (cstr l) ''artist'' \<noteq> None \<longleftrightarrow> sublist ''artist'' l"
      using assms by (simp_all add: strstr_found cstr_id)
    then show ?thesis
      using data skip by (auto simp: load_playlist_csv_def buf)
  qed
qed

lemma sniff_last_line:
  assumes "newline \<notin> set l" "NUL \<notin> set l" "length l < MAX_LINE" "l \<noteq> []"
  shows "load_playlist_csv pl (Some l)
           = (1, if sublist ''title'' l \<and> sublist ''artist'' l then pl else load_record pl l)"
proof -
  from assms have buf: "fgets MAX_LINE l = Some (l, [])"
    by (simp add: fgets_def fgets_bytes_end)
  then have "load_records pl l = load_record pl l"
    by (subst load_records.simps) (simp add: load_records_Nil)
  moreover have "strstr (cstr l) ''title'' \<noteq> None \<longleftrightarrow> sublist ''title'' l"
    and "strstr (cstr l) ''artist'' \<noteq> None \<longleftrightarrow> sublist ''artist'' l"
    using assms by (simp_all add: strstr_found cstr_id)
  ultimately show ?thesis
    by (auto simp: load_playlist_csv_def buf load_records_Nil)
qed

lemma fgets_bytes_take_drop:
  "fgets_bytes k f
     = (take (min k (Suc (length (takeWhile (\<lambda>c. c \<noteq> newline) f)))) f,
        drop (min k (Suc (length (takeWhile (\<lambda>c. c \<noteq> newline) f)))) f)"
  by (induction k f rule: fgets_bytes.induct) (auto split: prod.splits)

lemma fgets_sniffed:
  "f \<noteq> [] \<Longrightarrow> fgets MAX_LINE f = Some (take (sniffed_length f) f, drop (sniffed_length f) f)"
  by (simp add: fgets_def fgets_bytes_take_drop sniffed_length_def first_line_def)

lemma load_playlist_csv_sniffed:
  assumes "f \<noteq> []"
  shows "load_playlist_csv pl (Some f)
           = (1, if sublist ''title'' (sniffed f) \<and> sublist ''artist'' (sniffed f)
                 then load_records pl (drop (sniffed_length f) f) else load_records pl f)"
  using assms
  by (auto simp: load_playlist_csv_def fgets_sniffed sniffed_def strstr_None)

lemma sniffed_short_line:
  assumes "newline \<notin> set l" "NUL \<notin> set l" "length l + 1 < MAX_LINE"
  shows "sniffed (l @ newline # rest) = l @ [newline]"
    and "drop (sniffed_length (l @ newline # rest)) (l @ newline # rest) = rest"
proof -
  have "first_line (l @ newline # rest) = l"
    using assms(1) by (simp add: first_line_def takeWhile_upto)
  with assms(3) have len: "sniffed_length (l @ newline # rest) = Suc (length l)"
    by (simp add: sniffed_length_def)
  then show "sniffed (l @ newline # rest) = l @ [newline]"
    using assms(2) by (simp add: sniffed_def cstr_id)
  from len show "drop (sniffed_length (l @ newline # rest)) (l @ newline # rest) = rest"
    by simp
qed

lemma sniff_line_cstr:
  assumes "newline \<notin> set l" "length l < MAX_LINE"
  shows "load_playlist_csv pl (Some (l @ newline # rest))
           = (1, if sublist ''title'' (cstr l) \<and> sublist ''artist'' (cstr l) then load_records pl rest
                 else load_records (load_record pl l) rest)"
proof -
  let ?f = "l @ newline # rest"
  have data: "load_records pl ?f = load_records (load_record pl l) rest"
    using load_records_line [OF assms, of pl rest] load_record_strip_newline [OF assms(1), of pl]
    by simp
  show ?thesis
  proof (cases "length l + 1 < MAX_LINE")
    case True
    with assms have buf: "fgets MAX_LINE ?f = Some (l @ [newline], rest)"
      by (simp add: fgets_def fgets_bytes_line)
    have "strstr (cstr (l @ [newline])) ''title'' = None \<longleftrightarrow> \<not> sublist ''title'' (cstr l)"
      and "strstr (cstr (l @ [newline])) ''artist'' = None \<longleftrightarrow> \<not> sublist ''artist'' (cstr l)"
      by (simp_all add: strstr_None sublist_cstr_newline)
    then show ?thesis
      using data by (auto simp: load_playlist_csv_def buf)
  next
    case False
    with assms have len: "length l = MAX_LINE - 1"
      by simp
    with assms have buf: "fgets MAX_LINE ?f = Some (l, newline # rest)"
      by (auto simp: fgets_def fgets_bytes_full MAX_LINE_def)
    have "fgets MAX_LINE (newline # rest) = Some ([newline], rest)"
      using fgets_bytes_line [of "[]" "MAX_LINE - 1" rest] by (simp add: fgets_def MAX_LINE_def)
    then have skip: "load_records pl (newline # rest) = load_records pl rest"
      by (subst load_records.simps) (simp add: load_record_blank)
    have "strstr (cstr l) ''title'' = None \<longleftrightarrow> \<not> sublist ''title'' (cstr l)"
      and "strstr (cstr l) ''artist'' = None \<longleftrightarrow> \<not> sublist ''artist'' (cstr l)"
      by (simp_all add: strstr_None)
    then show ?thesis
      using data skip by (auto simp: load_playlist_csv_def buf)
  qed
qed

lemma sniff_long_line:
  assumes "newline \<notin> set l" "MAX_LINE - 1 \<le> length l"
  shows "load_playlist_csv pl (Some (l @ r))
           = (1, if sublist ''title'' (cstr (take (MAX_LINE - 1) l))
                    \<and> sublist ''artist'' (cstr (take (MAX_LINE - 1) l))
                 then load_records pl (drop (MAX_LINE - 1) l @ r) else load_records pl (l @ r))"
proof -
  have "takeWhile (\<lambda>c. c \<noteq> newline) (l @ r) = l @ takeWhile (\<lambda>c. c \<noteq> newline) r"
    using assms(1) by (intro takeWhile_append2) auto
  then have "length l \<le> length (first_line (l @ r))"
    by (simp add: first_line_def)
  with assms(2) have len: "sniffed_length (l @ r) = MAX_LINE - 1"
    by (simp add: sniffed_length_def)
  from assms(2) have "l @ r \<noteq> []"
    by (auto simp: MAX_LINE_def)
  from load_playlist_csv_sniffed [OF this, of pl] assms(2) show ?thesis
    by (simp add: len sniffed_def)
qed

text \<open>
  C8, as amended: a saved file always starts with the line
  \<^verbatim>\<open>title,artist,album,duration_seconds\<close>.  On loading, what is examined is the first line
  with its newline, cut to the first 1023 bytes and read as a C string up to its first NUL:
  exactly when that text contains both \<^verbatim>\<open>title\<close> and \<^verbatim>\<open>artist\<close> those bytes are skipped,
  otherwise the file is read from its start.  So of a first line of 1023 characters or
  more only the first 1023 bytes are examined and skipped, and what follows them is read
  as records; a first line of at most 1023 characters is skipped as a whole when its text
  up to the first NUL contains both words, and is otherwise read as the first data
  record, whether or not the file has further lines.
\<close>

theorem header_written_and_sniffed:
  "(\<exists>body. save_playlist_csv True pl
              = (1, Some (''title,artist,album,duration_seconds'' @ [newline] @ body)))
   \<and> (f \<noteq> [] \<longrightarrow>
        load_playlist_csv pl' (Some f)
          = (1, if sublist ''title'' (sniffed f) \<and> sublist ''artist'' (sniffed f)
                then load_records pl' (drop (sniffed_length f) f) else load_records pl' f))
   \<and> (newline \<notin> set l \<and> MAX_LINE - 1 \<le> length l \<longrightarrow>
        load_playlist_csv pl' (Some (l @ r))
          = (1, if sublist ''title'' (cstr (take (MAX_LINE - 1) l))
                   \<and> sublist ''artist'' (cstr (take (MAX_LINE - 1) l))
                then load_records pl' (drop (MAX_LINE - 1) l @ r) else load_records pl' (l @ r)))
   \<and> (newline \<notin> set l \<and> length l < MAX_LINE \<longrightarrow>
        load_playlist_csv pl' (Some (l @ newline # rest))
          = (1, if sublist ''title'' (cstr l) \<and> sublist ''artist'' (cstr l)
                then load_records pl' rest else load_records (load_record pl' l) rest))
   \<and> (newline \<notin> set l \<and> NUL \<notin> set l \<and> length l < MAX_LINE \<longrightarrow>
        load_playlist_csv pl' (Some (l @ newline # rest))
          = (1, if sublist ''title'' l \<and> sublist ''artist'' l then load_records pl' rest
                else load_records (load_record pl' l) rest))
   \<and> (newline \<notin> set l \<and> NUL \<notin> set l \<and> length l < MAX_LINE \<and> l \<noteq> [] \<longrightarrow>
        load_playlist_csv pl' (Some l)
          = (1, if sublist ''title'' l \<and> sublist ''artist'' l then pl' else load_record pl' l))"
proof -
  have "save_playlist_csv True pl
          = (1, Some (''title,artist,album,duration_seconds'' @ [newline] @ concat (map save_record pl)))"
    by (simp add: save_playlist_csv_def csv_header_def)
  then have "\<exists>body. save_playlist_csv True pl
              = (1, Some (''title,artist,album,duration_seconds'' @ [newline] @ body))"
    by blast
  then show ?thesis
    using load_playlist_csv_sniffed [of f pl'] sniff_long_line [of l pl' r]
      sniff_line_cstr [of l pl' rest] sniff_line [of l pl' rest] sniff_last_line [of l pl']
    by blast
qed

theorem header_written_and_sniffed_witness:
  "load_playlist_csv [] (Some (''title,artist,album,duration_seconds'' @ newline # song_b_csv))
     = (1, [song_b])
   \<and> load_playlist_csv [] (Some (''Song B,Artist Y,Album 2,340'' @ newline # []))
     = (1, [song_b])
   \<and> load_playlist_csv [] (Some ''title,artist'') = (1, [])
   \<and> load_playlist_csv [] (Some (nul_line @ newline # song_b_csv))
     = (1, [\<lparr>title = ''title'', artist = [], album = [], duration = 0\<rparr>, song_b])
   \<and> load_playlist_csv [] (Some (padded_header @ song_b_csv)) = (1, [song_b])"
proof -
  let ?h = "''title,artist,album,duration_seconds''"
  let ?d = "''Song B,Artist Y,Album 2,340''"
  have h: "newline \<notin> set ?h \<and> NUL \<notin> set ?h \<and> length ?h < MAX_LINE"
    and d: "newline \<notin> set ?d \<and> NUL \<notin> set ?d \<and> length ?d < MAX_LINE"
    and e: "newline \<notin> set ''title,artist'' \<and> NUL \<notin> set ''title,artist''
            \<and> length ''title,artist'' < MAX_LINE \<and> ''title,artist'' \<noteq> []"
    and n: "newline \<notin> set nul_line \<and> length nul_line < MAX_LINE"
    and p: "newline \<notin> set padded_header \<and> MAX_LINE - 1 \<le> length padded_header"
    by (simp_all add: MAX_LINE_def nul_line_def padded_header_def)
  have words: "sublist ''title'' ?h \<and> sublist ''artist'' ?h" "\<not> sublist ''title'' ?d"
      "sublist ''title'' ''title,artist'' \<and> sublist ''artist'' ''title,artist''"
      "\<not> sublist ''artist'' (cstr nul_line)"
    by code_simp+
  have run: "load_records [] song_b_csv = [song_b]"
      "load_records (load_record [] ?d) [] = [song_b]"
      "load_records (load_record [] nul_line) song_b_csv
         = [\<lparr>title = ''title'', artist = [], album = [], duration = 0\<rparr>, song_b]"
    by code_simp+
  from header_written_and_sniffed [where pl' = "[]" and l = ?h and rest = song_b_csv] h
  have "load_playlist_csv [] (Some (?h @ newline # song_b_csv))
          = (1, if sublist ''title'' ?h \<and> sublist ''artist'' ?h then load_records [] song_b_csv
                else load_records (load_record [] ?h) song_b_csv)"
    by blast
  with words(1) run(1)
  have first: "load_playlist_csv [] (Some (?h @ newline # song_b_csv)) = (1, [song_b])"
    by (simp only: simp_thms if_True)
  from header_written_and_sniffed [where pl' = "[]" and l = ?d and rest = "[]"] d
  have "load_playlist_csv [] (Some (?d @ newline # []))
          = (1, if sublist ''title'' ?d \<and> sublist ''artist'' ?d then load_records [] []
                else load_records (load_record [] ?d) [])"
    by blast
  with words(2) run(2)
  have second: "load_playlist_csv [] (Some (?d @ newline # [])) = (1, [song_b])"
    by (simp only: simp_thms if_False)
  from header_written_and_sniffed [where pl' = "[]" and l = "''title,artist''"] e
  have "load_playlist_csv [] (Some ''title,artist'')
          = (1, if sublist ''title'' ''title,artist'' \<and> sublist ''artist'' ''title,artist'' then []
                else load_record [] ''title,artist'')"
    by blast
  with words(3)
  have third: "load_playlist_csv [] (Some ''title,artist'') = (1, [])"
    by (simp only: simp_thms if_True)
  from header_written_and_sniffed [where pl' = "[]" and l = nul_line and rest = song_b_csv] n
  have "load_playlist_csv [] (Some (nul_line @ newline # song_b_csv))
          = (1, if sublist ''title'' (cstr nul_line) \<and> sublist ''artist'' (cstr nul_line)
                then load_records [] song_b_csv
                else load_records (load_record [] nul_line) song_b_csv)"
    by blast
  with words(4) run(3)
  have fourth: "load_playlist_csv [] (Some (nul_line @ newline # song_b_csv))
     = (1, [\<lparr>title = ''title'', artist = [], album = [], duration = 0\<rparr>, song_b])"
    by (simp only: simp_thms if_False)
  have cut: "take (MAX_LINE - 1) padded_header = padded_header"
      "drop (MAX_LINE - 1) padded_header = []"
    by (simp_all add: padded_header_def MAX_LINE_def)
  have "cstr padded_header = padded_header"
    by (rule cstr_id) (simp add: padded_header_def)
  moreover have "sublist v (''artist,title'' @ t)" if "sublist v ''artist,title''" for v t
    using that sublist_order.order_trans [of v "''artist,title''" "''artist,title'' @ t"] by simp
  moreover have "sublist ''title'' ''artist,title''" "sublist ''artist'' ''artist,title''"
    by code_simp+
  ultimately have both: "sublist ''title'' (cstr (take (MAX_LINE - 1) padded_header))
      \<and> sublist ''artist'' (cstr (take (MAX_LINE - 1) padded_header))"
    by (simp only: cut) (simp add: padded_header_def)
  from header_written_and_sniffed [where pl' = "[]" and l = padded_header and r = song_b_csv] p
  have "load_playlist_csv [] (Some (padded_header @ song_b_csv))
          = (1, if sublist ''title'' (cstr (take (MAX_LINE - 1) padded_header))
                   \<and> sublist ''artist'' (cstr (take (MAX_LINE - 1) padded_header))
                then load_records [] (drop (MAX_LINE - 1) padded_header @ song_b_csv)
                else load_records [] (padded_header @ song_b_csv))"
    by blast
  with both run(1)
  have fifth: "load_playlist_csv [] (Some (padded_header @ song_b_csv)) = (1, [song_b])"
    by (simp only: simp_thms if_True cut append_Nil)
  from first second third fourth fifth show ?thesis
    by blast
qed

text \<open>
  C8 as stated fails for a long first line: the line below holds both words, yet only
  its first 1023 bytes are skipped and the end of the same line is read as a record.
\<close>

theorem header_sniff_long_line:
  "sublist ''title'' (takeWhile (\<lambda>c. c \<noteq> newline) long_header)
   \<and> sublist ''artist'' (takeWhile (\<lambda>c. c \<noteq> newline) long_header)
   \<and> load_playlist_csv [] (Some long_header)
        = (1, [\<lparr>title = replicate 9 (CHR ''x''), artist = [], album = [], duration = 0\<rparr>])"
proof -
  let ?w = "''title,artist''"
  let ?l = "?w @ replicate 1011 (CHR ''x'')"
  let ?rest = "replicate 9 (CHR ''x'') @ [newline]"
  have split: "long_header = ?l @ ?rest"
    by (simp add: long_header_def replicate_add [symmetric])
  have w: "sublist ''title'' ?w" "sublist ''artist'' ?w"
    by code_simp+
  have first: "takeWhile (\<lambda>c. c \<noteq> newline) long_header = ?w @ replicate 1020 (CHR ''x'')"
    using takeWhile_upto [of newline "?w @ replicate 1020 (CHR ''x'')" "[]"]
    by (simp add: long_header_def)
  have sub: "sublist v (?w @ r)" if "sublist v ?w" for v r
    using that sublist_order.order_trans [of v ?w "?w @ r"] by simp
  have buf: "fgets MAX_LINE (?l @ ?rest) = Some (?l, ?rest)"
    using fgets_bytes_full [of ?l "MAX_LINE - 1" ?rest] by (simp add: fgets_def MAX_LINE_def)
  have "cstr ?l = ?l"
    by (rule cstr_id) simp
  then have found: "strstr (cstr ?l) ''title'' \<noteq> None" "strstr (cstr ?l) ''artist'' \<noteq> None"
    using sub [OF w(1), of "replicate 1011 (CHR ''x'')"] sub [OF w(2), of "replicate 1011 (CHR ''x'')"]
    by (simp_all only: strstr_sublist)
  have run: "load_records [] ?rest
               = [\<lparr>title = replicate 9 (CHR ''x''), artist = [], album = [], duration = 0\<rparr>]"
    by code_simp
  have "load_playlist_csv [] (Some (?l @ ?rest)) = (1, load_records [] ?rest)"
    using found by (simp only: load_playlist_csv_def buf option.case prod.case simp_thms if_False)
  with run split first sub [OF w(1)] sub [OF w(2)] show ?thesis
    by (simp only: simp_thms)
qed

section \<open>Lenient loading\<close>

lemma atoi_digits_none: "cs = [] \<or> \<not> isdigit (hd cs) \<Longrightarrow> atoi_digits acc cs = acc"
  by (cases cs) auto

lemma atoi_no_number:
  assumes "\<not> starts_with_number s"
  shows "atoi s = 0"
proof (cases "dropWhile isspace s")
  case Nil
  show ?thesis
    unfolding atoi_def strtol_def Nil by simp
next
  case (Cons c cs)
  show ?thesis
  proof (cases "c = CHR ''-'' \<or> c = CHR ''+''")
    case True
    with assms have "cs = [] \<or> \<not> isdigit (hd cs)"
      unfolding starts_with_number_def Cons by auto
    then have "atoi_digits 0 cs = 0"
      by (rule atoi_digits_none)
    with True show ?thesis
      unfolding atoi_def strtol_def Cons by (auto simp: LONG_MIN_def LONG_MAX_def)
  next
    case False
    with assms have "\<not> isdigit c"
      unfolding starts_with_number_def Cons by simp
    with False show ?thesis
      unfolding atoi_def strtol_def Cons by (simp add: LONG_MAX_def)
  qed
qed

lemma load_record_skips:
  "fst (csv_read_field (Some (takeWhile (\<lambda>c. c \<noteq> newline) (cstr buf)))) = [] \<Longrightarrow>
   load_record pl buf = pl"
  by (auto simp: load_record_def split: prod.splits)

lemma load_record_leading_comma: "load_record pl (comma # r) = pl"
proof -
  have "fst (csv_read_field (Some (comma # s))) = []" for s
    by (simp add: csv_read_field_def)
  moreover have "takeWhile (\<lambda>c. c \<noteq> newline) (cstr (comma # r))
                   = comma # takeWhile (\<lambda>c. c \<noteq> newline) (cstr r)"
    by (simp add: cstr_def)
  ultimately show ?thesis
    by (intro load_record_skips) simp
qed

lemma load_never_fails:
  "f \<noteq> [] \<Longrightarrow> load_playlist_csv pl (Some f) = (1, pl @ snd (load_playlist_csv [] (Some f)))"
  using load_records_append [of pl]
  by (auto simp: load_playlist_csv_def fgets_def split: prod.splits)

lemma doubled_escape_chars: "doubled t = escape_chars t"
  by (simp add: doubled_def escape_chars_concat)

lemma read_plain_all:
  assumes "ti + length s < MAX_LINE"
  shows "read_plain ti s = (takeWhile (\<lambda>c. c \<noteq> comma) s, dropWhile (\<lambda>c. c \<noteq> comma) s)"
proof -
  let ?a = "takeWhile (\<lambda>c. c \<noteq> comma) s" and ?r = "dropWhile (\<lambda>c. c \<noteq> comma) s"
  have "comma \<notin> set ?a"
    by (auto dest: set_takeWhileD)
  moreover have "ti + length ?a < MAX_LINE"
    using assms length_takeWhile_le [of "\<lambda>c. c \<noteq> comma" s] by simp
  moreover have "?r = [] \<or> hd ?r = comma"
    using hd_dropWhile [of "\<lambda>c. c \<noteq> comma" s] by auto
  ultimately have "read_plain ti (?a @ ?r) = (?a, ?r)"
    by (rule read_plain_field)
  then show ?thesis
    by simp
qed

lemma skip_comma_dropWhile:
  "skip_comma (dropWhile (\<lambda>c. c \<noteq> comma) s) = drop 1 (dropWhile (\<lambda>c. c \<noteq> comma) s)"
proof (cases "dropWhile (\<lambda>c. c \<noteq> comma) s")
  case Nil
  then show ?thesis
    by (simp only: skip_comma_def list.case drop_Nil)
next
  case (Cons x xs)
  with hd_dropWhile [of "\<lambda>c. c \<noteq> comma" s] have "x = comma"
    by (simp only: list.sel) simp
  with Cons show ?thesis
    by (simp only: skip_comma_def list.case) simp
qed

lemma csv_read_field_plain_branch:
  assumes "s \<noteq> []" "hd s \<noteq> dquote"
  shows "csv_read_field (Some s)
           = (fst (read_plain 0 s),
              if skip_comma (snd (read_plain 0 s)) = [] then None
              else Some (skip_comma (snd (read_plain 0 s))))"
proof -
  from assms obtain c cs where s: "s = c # cs" "c \<noteq> dquote"
    by (cases s) auto
  obtain tmp r where rp: "read_plain 0 (c # cs) = (tmp, r)"
    by (cases "read_plain 0 (c # cs)")
  show ?thesis
    using s(2) by (simp add: s(1) csv_read_field_def rp del: read_plain.simps)
qed

lemma csv_read_field_quoted_branch:
  "csv_read_field (Some (dquote # s))
     = (fst (read_quoted 0 s),
        if skip_comma (dropWhile (\<lambda>x. x \<noteq> comma) (snd (read_quoted 0 s))) = [] then None
        else Some (skip_comma (dropWhile (\<lambda>x. x \<noteq> comma) (snd (read_quoted 0 s)))))"
proof -
  obtain tmp r where rq: "read_quoted 0 s = (tmp, r)"
    by (cases "read_quoted 0 s")
  show ?thesis
    by (simp add: csv_read_field_def rq del: read_quoted.simps)
qed

lemma csv_read_field_unquoted:
  assumes "line \<noteq> []" "hd line \<noteq> dquote" "length line < MAX_LINE"
  shows "csv_read_field (Some line) = (takeWhile (\<lambda>c. c \<noteq> comma) line, after_comma line)"
proof -
  have "read_plain 0 line = (takeWhile (\<lambda>c. c \<noteq> comma) line, dropWhile (\<lambda>c. c \<noteq> comma) line)"
    using assms(3) by (intro read_plain_all) simp
  then show ?thesis
    by (simp only: csv_read_field_plain_branch [OF assms(1,2)] fst_conv snd_conv
          skip_comma_dropWhile after_comma_def Let_def)
qed

lemma csv_read_field_quoted:
  assumes "length (dquote # doubled t @ dquote # q) < MAX_LINE" "q = [] \<or> hd q \<noteq> dquote"
  shows "csv_read_field (Some (dquote # doubled t @ dquote # q)) = (t, after_comma q)"
proof -
  have "length t \<le> length (doubled t)"
    by (simp add: doubled_escape_chars length_escape_chars)
  with assms(1) have "0 + length t < MAX_LINE"
    by simp
  from read_quoted_escape [OF this assms(2)]
  obtain r' where r': "read_quoted 0 (doubled t @ dquote # q) = (t, r')"
      "r' = q \<or> r' = dquote # q"
    unfolding doubled_escape_chars by blast
  have "dropWhile (\<lambda>c. c \<noteq> comma) (dquote # q) = dropWhile (\<lambda>c. c \<noteq> comma) q"
    by simp
  with r'(2) have "dropWhile (\<lambda>c. c \<noteq> comma) r' = dropWhile (\<lambda>c. c \<noteq> comma) q"
    by (elim disjE) (simp_all only:)
  then show ?thesis
    by (simp only: csv_read_field_quoted_branch r'(1) fst_conv snd_conv
          skip_comma_dropWhile after_comma_def Let_def)
qed

lemma read_quoted_unterminated:
  "ti + length t < MAX_LINE \<Longrightarrow> \<exists>r'. read_quoted ti (escape_chars t) = (t, r') \<and> comma \<notin> set r' \<and> r' = []"
proof (induction t arbitrary: ti)
  case Nil
  show ?case by simp
next
  case (Cons c t)
  show ?case
  proof (cases "c = dquote")
    case True
    from Cons.prems have "Suc ti + length t < MAX_LINE"
      by simp
    from Cons.IH [OF this] True show ?thesis
      by auto
  next
    case False
    show ?thesis
    proof (cases "MAX_LINE \<le> Suc ti + 1")
      case True
      with Cons.prems have "t = []"
        by (cases t) auto
      with True False show ?thesis
        by simp
    next
      case limit: False
      with Cons.prems have "Suc ti + length t < MAX_LINE"
        by simp
      from Cons.IH [OF this] False limit show ?thesis
        by auto
    qed
  qed
qed

lemma csv_read_field_unterminated:
  assumes "length (dquote # doubled t) < MAX_LINE"
  shows "csv_read_field (Some (dquote # doubled t)) = (t, None)"
proof -
  have "length t \<le> length (doubled t)"
    by (simp add: doubled_escape_chars length_escape_chars)
  with assms have "0 + length t < MAX_LINE"
    by simp
  from read_quoted_unterminated [OF this] have "read_quoted 0 (doubled t) = (t, [])"
    unfolding doubled_escape_chars by auto
  then show ?thesis
    by (simp only: csv_read_field_quoted_branch fst_conv snd_conv)
       (simp add: skip_comma_def)
qed

lemma quoted_shape:
  "(\<exists>t q. s = doubled t @ dquote # q \<and> (q = [] \<or> hd q \<noteq> dquote)) \<or> (\<exists>t. s = doubled t)"
proof (induction s rule: length_induct)
  case (1 s)
  show ?case
  proof (cases s)
    case Nil
    then have "s = doubled []"
      by (simp add: doubled_def)
    then show ?thesis
      by blast
  next
    case (Cons c cs)
    show ?thesis
    proof (cases "c = dquote")
      case False
      from 1 Cons have "(\<exists>t q. cs = doubled t @ dquote # q \<and> (q = [] \<or> hd q \<noteq> dquote))
                         \<or> (\<exists>t. cs = doubled t)"
        by simp
      then show ?thesis
      proof
        assume "\<exists>t q. cs = doubled t @ dquote # q \<and> (q = [] \<or> hd q \<noteq> dquote)"
        then obtain t q where "cs = doubled t @ dquote # q" "q = [] \<or> hd q \<noteq> dquote"
          by blast
        with Cons False have "s = doubled (c # t) @ dquote # q"
          by (simp add: doubled_def)
        with \<open>q = [] \<or> hd q \<noteq> dquote\<close> show ?thesis
          by blast
      next
        assume "\<exists>t. cs = doubled t"
        then obtain t where "cs = doubled t"
          by blast
        with Cons False have "s = doubled (c # t)"
          by (simp add: doubled_def)
        then show ?thesis
          by blast
      qed
    next
      case True
      show ?thesis
      proof (cases "cs \<noteq> [] \<and> hd cs = dquote")
        case False
        with Cons True have "s = doubled [] @ dquote # cs" "cs = [] \<or> hd cs \<noteq> dquote"
          by (auto simp: doubled_def)
        then show ?thesis
          by blast
      next
        case twice: True
        then obtain ds where ds: "cs = dquote # ds"
          by (cases cs) auto
        from 1 Cons ds have "(\<exists>t q. ds = doubled t @ dquote # q \<and> (q = [] \<or> hd q \<noteq> dquote))
                         \<or> (\<exists>t. ds = doubled t)"
          by simp
        then show ?thesis
        proof
          assume "\<exists>t q. ds = doubled t @ dquote # q \<and> (q = [] \<or> hd q \<noteq> dquote)"
          then obtain t q where "ds = doubled t @ dquote # q" "q = [] \<or> hd q \<noteq> dquote"
            by blast
          with Cons True ds have "s = doubled (dquote # t) @ dquote # q"
            by (simp add: doubled_def)
          with \<open>q = [] \<or> hd q \<noteq> dquote\<close> show ?thesis
            by blast
        next
          assume "\<exists>t. ds = doubled t"
          then obtain t where "ds = doubled t"
            by blast
          with Cons True ds have "s = doubled (dquote # t)"
            by (simp add: doubled_def)
          then show ?thesis
            by blast
        qed
      qed
    qed
  qed
qed

lemma csv_read_field_end:
  "csv_read_field None = ([], None)" "csv_read_field (Some []) = ([], None)"
  by (simp_all add: csv_read_field_def)

lemma atoi_Nil: "atoi [] = 0"
  by (simp add: atoi_def strtol_def)

lemma load_record_read:
  assumes "csv_read_field (Some (takeWhile (\<lambda>c. c \<noteq> newline) (cstr buf))) = (f1, p1)"
    and "f1 \<noteq> []"
  shows "p1 = None \<Longrightarrow> load_record pl buf = add_track pl f1 [] [] 0"
    and "csv_read_field p1 = (f2, None) \<Longrightarrow> load_record pl buf = add_track pl f1 f2 [] 0"
    and "csv_read_field p1 = (f2, p2) \<Longrightarrow> csv_read_field p2 = (f3, None) \<Longrightarrow>
         load_record pl buf = add_track pl f1 f2 f3 0"
    and "csv_read_field p1 = (f2, p2) \<Longrightarrow> csv_read_field p2 = (f3, p3) \<Longrightarrow>
         csv_read_field p3 = (f4, p4) \<Longrightarrow>
         load_record pl buf = add_track pl f1 f2 f3 (atoi f4)"
  using assms by (simp_all add: load_record_def csv_read_field_end atoi_Nil)

lemma csv_escape_field_Nil: "csv_escape_field s = [] \<longleftrightarrow> s = []"
  by (auto simp: csv_escape_field_def)

lemma load_record_escaped:
  assumes "a \<noteq> []"
    and "newline \<notin> set a \<union> set b \<union> set c \<union> set d"
    and "NUL \<notin> set a \<union> set b \<union> set c \<union> set d"
    and "length a < MAX_LINE" "length b < MAX_LINE" "length c < MAX_LINE" "length d < MAX_LINE"
  shows "load_record pl (csv_escape_field a) = add_track pl a [] [] 0"
    and "load_record pl (csv_escape_field a @ comma # csv_escape_field b) = add_track pl a b [] 0"
    and "load_record pl (csv_escape_field a @ comma # csv_escape_field b @ comma # csv_escape_field c)
           = add_track pl a b c 0"
    and "load_record pl (csv_escape_field a @ comma # csv_escape_field b @ comma # csv_escape_field c
                           @ comma # csv_escape_field d)
           = add_track pl a b c (atoi d)"
proof -
  note len = assms(4-7)
  have chars: "newline \<notin> set (csv_escape_field s) \<and> NUL \<notin> set (csv_escape_field s)"
    if "newline \<notin> set s" "NUL \<notin> set s" for s
    using that set_csv_escape_field [of s] by auto
  have ea: "newline \<notin> set (csv_escape_field a)" "NUL \<notin> set (csv_escape_field a)"
    and eb: "newline \<notin> set (csv_escape_field b)" "NUL \<notin> set (csv_escape_field b)"
    and ec: "newline \<notin> set (csv_escape_field c)" "NUL \<notin> set (csv_escape_field c)"
    and ed: "newline \<notin> set (csv_escape_field d)" "NUL \<notin> set (csv_escape_field d)"
    using assms(2,3) chars [of a] chars [of b] chars [of c] chars [of d] by auto
  have ra: "csv_read_field (Some (csv_escape_field a @ comma # r)) = (a, if r = [] then None else Some r)" for r
    using len(1) by (rule csv_read_field_escape)
  have rb: "csv_read_field (Some (csv_escape_field b @ comma # r)) = (b, if r = [] then None else Some r)" for r
    using len(2) by (rule csv_read_field_escape)
  have rc: "csv_read_field (Some (csv_escape_field c @ comma # r)) = (c, if r = [] then None else Some r)" for r
    using len(3) by (rule csv_read_field_escape)
  have la: "csv_read_field (Some (csv_escape_field a)) = (a, None)"
    using len(1) by (rule csv_read_field_escape_alone)
  have lb: "csv_read_field (Some (csv_escape_field b)) = (b, None)"
    using len(2) by (rule csv_read_field_escape_alone)
  have lc: "csv_read_field (Some (csv_escape_field c)) = (c, None)"
    using len(3) by (rule csv_read_field_escape_alone)
  have ld: "csv_read_field (Some (csv_escape_field d)) = (d, None)"
    using len(4) by (rule csv_read_field_escape_alone)
  have "takeWhile (\<lambda>x. x \<noteq> newline) (cstr (csv_escape_field a)) = csv_escape_field a"
    using ea by (intro line_of_buffer) auto
  then have one: "csv_read_field (Some (takeWhile (\<lambda>x. x \<noteq> newline) (cstr (csv_escape_field a))))
                    = (a, None)"
    using la by simp
  show "load_record pl (csv_escape_field a) = add_track pl a [] [] 0"
    using load_record_read(1) [OF one assms(1)] by simp
  let ?two = "csv_escape_field a @ comma # csv_escape_field b"
  have "takeWhile (\<lambda>x. x \<noteq> newline) (cstr ?two) = ?two"
    using ea eb by (intro line_of_buffer) auto
  then have two: "csv_read_field (Some (takeWhile (\<lambda>x. x \<noteq> newline) (cstr ?two)))
                    = (a, if csv_escape_field b = [] then None else Some (csv_escape_field b))"
    using ra by simp
  have b: "csv_read_field (if csv_escape_field b = [] then None else Some (csv_escape_field b))
             = (b, None)"
    using lb by (simp add: csv_read_field_end csv_escape_field_Nil)
  show "load_record pl ?two = add_track pl a b [] 0"
    using two assms(1) b by (rule load_record_read(2))
  let ?cs = "csv_escape_field b @ comma # csv_escape_field c"
  let ?three = "csv_escape_field a @ comma # ?cs"
  have "takeWhile (\<lambda>x. x \<noteq> newline) (cstr ?three) = ?three"
    using ea eb ec by (intro line_of_buffer) auto
  then have three: "csv_read_field (Some (takeWhile (\<lambda>x. x \<noteq> newline) (cstr ?three))) = (a, Some ?cs)"
    using ra by simp
  have bc: "csv_read_field (Some ?cs)
             = (b, if csv_escape_field c = [] then None else Some (csv_escape_field c))"
    by (rule rb)
  have c: "csv_read_field (if csv_escape_field c = [] then None else Some (csv_escape_field c))
             = (c, None)"
    using lc by (simp add: csv_read_field_end csv_escape_field_Nil)
  show "load_record pl ?three = add_track pl a b c 0"
    using three assms(1) bc c by (rule load_record_read(3))
  let ?ds = "csv_escape_field c @ comma # csv_escape_field d"
  let ?cds = "csv_escape_field b @ comma # ?ds"
  let ?four = "csv_escape_field a @ comma # ?cds"
  have "takeWhile (\<lambda>x. x \<noteq> newline) (cstr ?four) = ?four"
    using ea eb ec ed by (intro line_of_buffer) auto
  then have four: "csv_read_field (Some (takeWhile (\<lambda>x. x \<noteq> newline) (cstr ?four))) = (a, Some ?cds)"
    using ra by simp
  have bcd: "csv_read_field (Some ?cds) = (b, Some ?ds)"
    using rb by simp
  have cd: "csv_read_field (Some ?ds)
             = (c, if csv_escape_field d = [] then None else Some (csv_escape_field d))"
    by (rule rc)
  have d: "csv_read_field (if csv_escape_field d = [] then None else Some (csv_escape_field d))
             = (d, None)"
    using ld by (simp add: csv_read_field_end csv_escape_field_Nil)
  show "load_record pl ?four = add_track pl a b c (atoi d)"
    using four assms(1) bcd cd d by (rule load_record_read(4))
qed

lemma read_buffers_fit:
  "buf \<in> set (read_buffers f) \<Longrightarrow> buf \<noteq> [] \<and> length buf < MAX_LINE"
proof (induction f rule: length_induct)
  case (1 f)
  show ?case
  proof (cases "f = []")
    case True
    with 1(2) show ?thesis
      by (simp add: read_buffers.simps [of "[]"] fgets_def)
  next
    case False
    let ?k = "sniffed_length f"
    from False have buf: "fgets MAX_LINE f = Some (take ?k f, drop ?k f)"
      by (rule fgets_sniffed)
    have k: "0 < ?k" "?k < MAX_LINE"
      by (simp_all add: sniffed_length_def MAX_LINE_def)
    from buf 1(2) have "buf = take ?k f \<or> buf \<in> set (read_buffers (drop ?k f))"
      by (simp add: read_buffers.simps [of f])
    then show ?thesis
    proof
      assume "buf = take ?k f"
      with False k show ?thesis
        by auto
    next
      assume "buf \<in> set (read_buffers (drop ?k f))"
      moreover from False k have "length (drop ?k f) < length f"
        by (cases f) auto
      ultimately show ?thesis
        using 1(1) by blast
    qed
  qed
qed

lemma line_fits:
  "length buf < MAX_LINE \<Longrightarrow> length (takeWhile (\<lambda>c. c \<noteq> newline) (cstr buf)) < MAX_LINE"
  using length_takeWhile_le [of "\<lambda>c. c \<noteq> newline" "cstr buf"]
    length_takeWhile_le [of "\<lambda>c. c \<noteq> NUL" buf]
  by (simp add: cstr_def)

lemma load_playlist_csv_each_buffer:
  assumes "f \<noteq> []"
  shows "load_playlist_csv pl (Some f)
           = (1, pl @ concat (map (load_record [])
                   (read_buffers (if sublist ''title'' (sniffed f) \<and> sublist ''artist'' (sniffed f)
                                  then drop (sniffed_length f) f else f))))"
  using load_playlist_csv_sniffed [OF assms, of pl] by (simp add: load_records_buffers)

text \<open>
  C7, as amended: loading a file that is not empty always succeeds (return value 1) and
  keeps the tracks loaded before; the result is the old playlist followed by what each
  buffer of the file gives on its own, so no line stops the load.  The empty file is the
  one text that makes the load return 0.  Every line the loop sees has fewer than 1024
  characters, and for such a line the fields are read as follows.  At the end of the line
  (the NULL pointer or the empty rest) the field is empty.  A field that does not start
  with a quote is the text before the next comma.  A field that starts with a quote is
  the text up to the closing quote, with doubled quotes read as one, and what stands
  between the closing quote and the next comma is dropped; a quote that is never closed
  takes the rest of the line.  Every text behind an opening quote has one of these two
  shapes.  The next field starts behind the comma, and there is none when the line ends
  there.  So a line that ends after one, two or three fields gives empty text for the
  fields that are missing and duration 0, shown for any way the fields read and for lines
  whose fields are written as \<^verbatim>\<open>csv_escape_field\<close> writes them (any text without newline
  and NUL, the first not empty) as well as for unquoted fields.  The duration is \<^verbatim>\<open>atoi\<close>
  of the fourth field, which is 0 when the field does not start with a number.  A record
  whose first field is empty, such as a line that begins with a comma, adds nothing.
\<close>

theorem load_playlist_csv_lenient:
  "load_playlist_csv pl (Some []) = (0, pl)
   \<and> (f \<noteq> [] \<longrightarrow> load_playlist_csv pl (Some f) = (1, pl @ snd (load_playlist_csv [] (Some f))))
   \<and> (f \<noteq> [] \<longrightarrow>
        load_playlist_csv pl (Some f)
          = (1, pl @ concat (map (load_record [])
                  (read_buffers (if sublist ''title'' (sniffed f) \<and> sublist ''artist'' (sniffed f)
                                 then drop (sniffed_length f) f else f)))))
   \<and> (\<forall>b\<in>set (read_buffers f).
         b \<noteq> [] \<and> length (takeWhile (\<lambda>c. c \<noteq> newline) (cstr b)) < MAX_LINE)
   \<and> csv_read_field None = ([], None)
   \<and> csv_read_field (Some []) = ([], None)
   \<and> (line \<noteq> [] \<and> hd line \<noteq> dquote \<and> length line < MAX_LINE \<longrightarrow>
        csv_read_field (Some line) = (takeWhile (\<lambda>c. c \<noteq> comma) line, after_comma line))
   \<and> (length (dquote # doubled t @ dquote # q) < MAX_LINE \<and> (q = [] \<or> hd q \<noteq> dquote) \<longrightarrow>
        csv_read_field (Some (dquote # doubled t @ dquote # q)) = (t, after_comma q))
   \<and> (length (dquote # doubled t) < MAX_LINE \<longrightarrow>
        csv_read_field (Some (dquote # doubled t)) = (t, None))
   \<and> ((\<exists>t q. s = doubled t @ dquote # q \<and> (q = [] \<or> hd q \<noteq> dquote)) \<or> (\<exists>t. s = doubled t))
   \<and> (csv_read_field (Some (takeWhile (\<lambda>c. c \<noteq> newline) (cstr buf))) = (fa, pa) \<and> fa \<noteq> [] \<longrightarrow>
          (pa = None \<longrightarrow> load_record pl buf = add_track pl fa [] [] 0)
        \<and> (csv_read_field pa = (fb, None) \<longrightarrow> load_record pl buf = add_track pl fa fb [] 0)
        \<and> (csv_read_field pa = (fb, pb) \<and> csv_read_field pb = (fc, None) \<longrightarrow>
             load_record pl buf = add_track pl fa fb fc 0)
        \<and> (csv_read_field pa = (fb, pb) \<and> csv_read_field pb = (fc, pc)
             \<and> csv_read_field pc = (fd, pd) \<longrightarrow>
             load_record pl buf = add_track pl fa fb fc (atoi fd)))
   \<and> (a \<noteq> [] \<and> newline \<notin> set a \<union> set b \<union> set c \<union> set d \<and> NUL \<notin> set a \<union> set b \<union> set c \<union> set d
        \<and> length a < MAX_LINE \<and> length b < MAX_LINE \<and> length c < MAX_LINE \<and> length d < MAX_LINE \<longrightarrow>
          load_record pl (csv_escape_field a) = add_track pl a [] [] 0
        \<and> load_record pl (csv_escape_field a @ comma # csv_escape_field b) = add_track pl a b [] 0
        \<and> load_record pl (csv_escape_field a @ comma # csv_escape_field b @ comma # csv_escape_field c)
            = add_track pl a b c 0
        \<and> load_record pl (csv_escape_field a @ comma # csv_escape_field b @ comma # csv_escape_field c
                            @ comma # csv_escape_field d)
            = add_track pl a b c (atoi d))
   \<and> (plain_field a \<and> plain_field b \<and> plain_field c \<and> plain_field d \<and> a \<noteq> []
        \<and> length (a @ comma # b @ comma # c @ comma # d) < MAX_LINE \<longrightarrow>
          load_record pl a = add_track pl a [] [] 0
        \<and> load_record pl (a @ comma # b) = add_track pl a b [] 0
        \<and> load_record pl (a @ comma # b @ comma # c) = add_track pl a b c 0
        \<and> load_record pl (a @ comma # b @ comma # c @ comma # d) = add_track pl a b c (atoi d))
   \<and> (\<not> starts_with_number d \<longrightarrow> atoi d = 0)
   \<and> (fst (csv_read_field (Some (takeWhile (\<lambda>c. c \<noteq> newline) (cstr buf)))) = [] \<longrightarrow>
        load_record pl buf = pl)
   \<and> load_record pl (comma # r) = pl
   \<and> (newline \<notin> set l \<longrightarrow> load_record pl (l @ [newline]) = load_record pl l)"
proof -
  have empty: "load_playlist_csv pl (Some []) = (0, pl)"
    by (simp add: load_playlist_csv_def fgets_def)
  have fit: "\<forall>b\<in>set (read_buffers f).
               b \<noteq> [] \<and> length (takeWhile (\<lambda>c. c \<noteq> newline) (cstr b)) < MAX_LINE"
    using read_buffers_fit [of _ f] line_fits by blast
  have read: "(pa = None \<longrightarrow> load_record pl buf = add_track pl fa [] [] 0)
        \<and> (csv_read_field pa = (fb, None) \<longrightarrow> load_record pl buf = add_track pl fa fb [] 0)
        \<and> (csv_read_field pa = (fb, pb) \<and> csv_read_field pb = (fc, None) \<longrightarrow>
             load_record pl buf = add_track pl fa fb fc 0)
        \<and> (csv_read_field pa = (fb, pb) \<and> csv_read_field pb = (fc, pc)
             \<and> csv_read_field pc = (fd, pd) \<longrightarrow>
             load_record pl buf = add_track pl fa fb fc (atoi fd))"
    if "csv_read_field (Some (takeWhile (\<lambda>c. c \<noteq> newline) (cstr buf))) = (fa, pa)" "fa \<noteq> []"
    using load_record_read [OF that, where pl = pl] by blast
  have escaped: "load_record pl (csv_escape_field a) = add_track pl a [] [] 0
        \<and> load_record pl (csv_escape_field a @ comma # csv_escape_field b) = add_track pl a b [] 0
        \<and> load_record pl (csv_escape_field a @ comma # csv_escape_field b @ comma # csv_escape_field c)
            = add_track pl a b c 0
        \<and> load_record pl (csv_escape_field a @ comma # csv_escape_field b @ comma # csv_escape_field c
                            @ comma # csv_escape_field d)
            = add_track pl a b c (atoi d)"
    if "a \<noteq> []" "newline \<notin> set a \<union> set b \<union> set c \<union> set d" "NUL \<notin> set a \<union> set b \<union> set c \<union> set d"
      "length a < MAX_LINE" "length b < MAX_LINE" "length c < MAX_LINE" "length d < MAX_LINE"
    using load_record_escaped [OF that, where pl = pl] by blast
  have plain: "load_record pl a = add_track pl a [] [] 0
        \<and> load_record pl (a @ comma # b) = add_track pl a b [] 0
        \<and> load_record pl (a @ comma # b @ comma # c) = add_track pl a b c 0
        \<and> load_record pl (a @ comma # b @ comma # c @ comma # d) = add_track pl a b c (atoi d)"
    if "plain_field a" "plain_field b" "plain_field c" "plain_field d" "a \<noteq> []"
      and "length (a @ comma # b @ comma # c @ comma # d) < MAX_LINE"
    using load_record_fields [of a b c d pl] that by simp
  show ?thesis
  proof (intro conjI)
    show "load_playlist_csv pl (Some []) = (0, pl)"
      by (rule empty)
    show "f \<noteq> [] \<longrightarrow> load_playlist_csv pl (Some f) = (1, pl @ snd (load_playlist_csv [] (Some f)))"
      using load_never_fails [of f pl] by blast
    show "f \<noteq> [] \<longrightarrow>
        load_playlist_csv pl (Some f)
          = (1, pl @ concat (map (load_record [])
                  (read_buffers (if sublist ''title'' (sniffed f) \<and> sublist ''artist'' (sniffed f)
                                 then drop (sniffed_length f) f else f))))"
      using load_playlist_csv_each_buffer [of f pl] by blast
    show "\<forall>b\<in>set (read_buffers f).
         b \<noteq> [] \<and> length (takeWhile (\<lambda>c. c \<noteq> newline) (cstr b)) < MAX_LINE"
      by (rule fit)
    show "csv_read_field None = ([], None)" "csv_read_field (Some []) = ([], None)"
      by (rule csv_read_field_end)+
    show "line \<noteq> [] \<and> hd line \<noteq> dquote \<and> length line < MAX_LINE \<longrightarrow>
        csv_read_field (Some line) = (takeWhile (\<lambda>c. c \<noteq> comma) line, after_comma line)"
      using csv_read_field_unquoted [of line] by blast
    show "length (dquote # doubled t @ dquote # q) < MAX_LINE \<and> (q = [] \<or> hd q \<noteq> dquote) \<longrightarrow>
        csv_read_field (Some (dquote # doubled t @ dquote # q)) = (t, after_comma q)"
      using csv_read_field_quoted [of t q] by blast
    show "length (dquote # doubled t) < MAX_LINE \<longrightarrow>
        csv_read_field (Some (dquote # doubled t)) = (t, None)"
      using csv_read_field_unterminated [of t] by blast
    show "(\<exists>t q. s = doubled t @ dquote # q \<and> (q = [] \<or> hd q \<noteq> dquote)) \<or> (\<exists>t. s = doubled t)"
      by (rule quoted_shape)
    show "csv_read_field (Some (takeWhile (\<lambda>c. c \<noteq> newline) (cstr buf))) = (fa, pa) \<and> fa \<noteq> [] \<longrightarrow>
          (pa = None \<longrightarrow> load_record pl buf = add_track pl fa [] [] 0)
        \<and> (csv_read_field pa = (fb, None) \<longrightarrow> load_record pl buf = add_track pl fa fb [] 0)
        \<and> (csv_read_field pa = (fb, pb) \<and> csv_read_field pb = (fc, None) \<longrightarrow>
             load_record pl buf = add_track pl fa fb fc 0)
        \<and> (csv_read_field pa = (fb, pb) \<and> csv_read_field pb = (fc, pc)
             \<and> csv_read_field pc = (fd, pd) \<longrightarrow>
             load_record pl buf = add_track pl fa fb fc (atoi fd))"
      using read by blast
    show "a \<noteq> [] \<and> newline \<notin> set a \<union> set b \<union> set c \<union> set d \<and> NUL \<notin> set a \<union> set b \<union> set c \<union> set d
        \<and> length a < MAX_LINE \<and> length b < MAX_LINE \<and> length c < MAX_LINE \<and> length d < MAX_LINE \<longrightarrow>
          load_record pl (csv_escape_field a) = add_track pl a [] [] 0
        \<and> load_record pl (csv_escape_field a @ comma # csv_escape_field b) = add_track pl a b [] 0
        \<and> load_record pl (csv_escape_field a @ comma # csv_escape_field b @ comma # csv_escape_field c)
            = add_track pl a b c 0
        \<and> load_record pl (csv_escape_field a @ comma # csv_escape_field b @ comma # csv_escape_field c
                            @ comma # csv_escape_field d)
            = add_track pl a b c (atoi d)"
      using escaped by blast
    show "plain_field a \<and> plain_field b \<and> plain_field c \<and> plain_field d \<and> a \<noteq> []
        \<and> length (a @ comma # b @ comma # c @ comma # d) < MAX_LINE \<longrightarrow>
          load_record pl a = add_track pl a [] [] 0
        \<and> load_record pl (a @ comma # b) = add_track pl a b [] 0
        \<and> load_record pl (a @ comma # b @ comma # c) = add_track pl a b c 0
        \<and> load_record pl (a @ comma # b @ comma # c @ comma # d) = add_track pl a b c (atoi d)"
      using plain by blast
    show "\<not> starts_with_number d \<longrightarrow> atoi d = 0"
      using atoi_no_number [of d] by blast
    show "fst (csv_read_field (Some (takeWhile (\<lambda>c. c \<noteq> newline) (cstr buf)))) = [] \<longrightarrow>
        load_record pl buf = pl"
      using load_record_skips [of buf pl] by blast
    show "load_record pl (comma # r) = pl"
      by (rule load_record_leading_comma)
    show "newline \<notin> set l \<longrightarrow> load_record pl (l @ [newline]) = load_record pl l"
      using load_record_strip_newline [of l pl] by blast
  qed
qed

theorem load_playlist_csv_lenient_witness:
  "load_playlist_csv [song_a] (Some ''Song B,Artist Y'')
     = (1, [song_a, \<lparr>title = ''Song B'', artist = ''Artist Y'', album = [], duration = 0\<rparr>])
   \<and> load_record [] ''Song B,Artist Y,Album 2,soon''
     = [\<lparr>title = ''Song B'', artist = ''Artist Y'', album = ''Album 2'', duration = 0\<rparr>]
   \<and> load_record [song_a] '',Artist Y,Album 2,340'' = [song_a]
   \<and> load_record [song_a] quoted_title_line
     = [song_a, \<lparr>title = ''Hey, you'', artist = [], album = [], duration = 0\<rparr>]
   \<and> csv_read_field (Some open_quote_line) = (''Half,done'', None)
   \<and> load_record [song_a] open_quote_line
     = [song_a, \<lparr>title = ''Half,done'', artist = [], album = [], duration = 0\<rparr>]
   \<and> load_playlist_csv [song_a] (Some ragged_csv)
     = (1, [song_a,
            \<lparr>title = ''Hey, you'', artist = [], album = [], duration = 0\<rparr>,
            \<lparr>title = ''Song B'', artist = ''Artist Y'', album = ''Album 2'', duration = 0\<rparr>,
            \<lparr>title = ''Half,done'', artist = [], album = [], duration = 0\<rparr>])"
proof -
  note inst = load_playlist_csv_lenient [where f = "''Song B,Artist Y''" and pl = "[song_a]"
      and a = "''Hey, you''" and b = "[]" and c = "[]" and d = "[]"
      and buf = open_quote_line and fa = "''Half,done''" and pa = None
      and fb = "[]" and pb = None and fc = "[]" and pc = None and fd = "[]" and pd = None
      and line = "''x''" and t = "''Half,done''" and q = "[]" and s = "[]"
      and r = "''Artist Y,Album 2,340''" and l = "[]"]
  note inst0 = load_playlist_csv_lenient [where f = ragged_csv and pl = "[]"
      and a = "''Song B''" and b = "''Artist Y''" and c = "''Album 2''" and d = "''soon''"
      and buf = "[]" and fa = "[]" and pa = None
      and fb = "[]" and pb = None and fc = "[]" and pc = None and fd = "[]" and pd = None
      and line = "''x''" and t = "[]" and q = "[]" and s = "[]"
      and r = "[]" and l = "[]"]
  note inst1 = load_playlist_csv_lenient [where f = ragged_csv and pl = "[song_a]"
      and a = "''Song B''" and b = "''Artist Y''" and c = "''Album 2''" and d = "''soon''"
      and buf = "[]" and fa = "[]" and pa = None
      and fb = "[]" and pb = None and fc = "[]" and pc = None and fd = "[]" and pd = None
      and line = "''x''" and t = "[]" and q = "[]" and s = "[]"
      and r = "[]" and l = "[]"]
  have pre: "plain_field ''Song B'' \<and> plain_field ''Artist Y'' \<and> plain_field ''Album 2''
        \<and> plain_field ''soon'' \<and> ''Song B'' \<noteq> []
        \<and> length (''Song B'' @ comma # ''Artist Y'' @ comma # ''Album 2'' @ comma # ''soon'') < MAX_LINE"
    by (simp add: plain_field_def MAX_LINE_def)
  have no_number: "\<not> starts_with_number ''soon''"
    by (simp add: starts_with_number_def isspace_def isdigit_def)
  have alone: "load_playlist_csv [] (Some ''Song B,Artist Y'')
                 = (1, [\<lparr>title = ''Song B'', artist = ''Artist Y'', album = [], duration = 0\<rparr>])"
    by code_simp
  from inst have "load_playlist_csv [song_a] (Some ''Song B,Artist Y'')
                    = (1, [song_a] @ snd (load_playlist_csv [] (Some ''Song B,Artist Y'')))"
    by blast
  with alone have first: "load_playlist_csv [song_a] (Some ''Song B,Artist Y'')
      = (1, [song_a, \<lparr>title = ''Song B'', artist = ''Artist Y'', album = [], duration = 0\<rparr>])"
    by simp
  from inst0 pre have "load_record [] (''Song B'' @ comma # ''Artist Y'' @ comma # ''Album 2'' @ comma # ''soon'')
                     = add_track [] ''Song B'' ''Artist Y'' ''Album 2'' (atoi ''soon'')"
    by blast
  moreover from inst0 no_number have "atoi ''soon'' = 0"
    by blast
  ultimately have second: "load_record [] ''Song B,Artist Y,Album 2,soon''
      = [\<lparr>title = ''Song B'', artist = ''Artist Y'', album = ''Album 2'', duration = 0\<rparr>]"
    by (simp add: add_track_def)
  from inst have "load_record [song_a] (comma # ''Artist Y,Album 2,340'') = [song_a]"
    by blast
  then have third: "load_record [song_a] '',Artist Y,Album 2,340'' = [song_a]"
    by simp
  have quoted: "''Hey, you'' \<noteq> [] \<and> newline \<notin> set ''Hey, you'' \<union> set [] \<union> set [] \<union> set []
        \<and> NUL \<notin> set ''Hey, you'' \<union> set [] \<union> set [] \<union> set []
        \<and> length ''Hey, you'' < MAX_LINE \<and> length ([] :: string) < MAX_LINE
        \<and> length ([] :: string) < MAX_LINE \<and> length ([] :: string) < MAX_LINE"
    by (simp add: MAX_LINE_def)
  from inst quoted
  have "load_record [song_a] (csv_escape_field ''Hey, you'') = add_track [song_a] ''Hey, you'' [] [] 0"
    by blast
  moreover have "csv_escape_field ''Hey, you'' = quoted_title_line"
    by (simp add: csv_escape_field_def quoted_title_line_def)
  ultimately have fourth: "load_record [song_a] quoted_title_line
      = [song_a, \<lparr>title = ''Hey, you'', artist = [], album = [], duration = 0\<rparr>]"
    by (simp add: add_track_def)
  have half: "dquote # doubled ''Half,done'' = open_quote_line"
    by (simp add: doubled_def open_quote_line_def)
  have "length (dquote # doubled ''Half,done'') < MAX_LINE"
    by (simp add: doubled_def MAX_LINE_def)
  with inst have "csv_read_field (Some (dquote # doubled ''Half,done'')) = (''Half,done'', None)"
    by blast
  then have fifth: "csv_read_field (Some open_quote_line) = (''Half,done'', None)"
    by (simp only: half)
  have "takeWhile (\<lambda>c. c \<noteq> newline) (cstr open_quote_line) = open_quote_line"
    by (simp add: open_quote_line_def cstr_def)
  with fifth
  have "csv_read_field (Some (takeWhile (\<lambda>c. c \<noteq> newline) (cstr open_quote_line))) = (''Half,done'', None)
        \<and> ''Half,done'' \<noteq> []"
    by simp
  with inst have "load_record [song_a] open_quote_line = add_track [song_a] ''Half,done'' [] [] 0"
    by blast
  then have sixth: "load_record [song_a] open_quote_line
      = [song_a, \<lparr>title = ''Half,done'', artist = [], album = [], duration = 0\<rparr>]"
    by (simp add: add_track_def)
  have "ragged_csv \<noteq> []"
    by (simp add: ragged_csv_def quoted_title_line_def)
  with inst1
  have "load_playlist_csv [song_a] (Some ragged_csv)
          = (1, [song_a] @ concat (map (load_record [])
                  (read_buffers (if sublist ''title'' (sniffed ragged_csv)
                                    \<and> sublist ''artist'' (sniffed ragged_csv)
                                 then drop (sniffed_length ragged_csv) ragged_csv else ragged_csv))))"
    by blast
  moreover have "concat (map (load_record [])
                  (read_buffers (if sublist ''title'' (sniffed ragged_csv)
                                    \<and> sublist ''artist'' (sniffed ragged_csv)
                                 then drop (sniffed_length ragged_csv) ragged_csv else ragged_csv)))
       = [\<lparr>title = ''Hey, you'', artist = [], album = [], duration = 0\<rparr>,
          \<lparr>title = ''Song B'', artist = ''Artist Y'', album = ''Album 2'', duration = 0\<rparr>,
          \<lparr>title = ''Half,done'', artist = [], album = [], duration = 0\<rparr>]"
    by code_simp
  ultimately have seventh: "load_playlist_csv [song_a] (Some ragged_csv)
     = (1, [song_a,
            \<lparr>title = ''Hey, you'', artist = [], album = [], duration = 0\<rparr>,
            \<lparr>title = ''Song B'', artist = ''Artist Y'', album = ''Album 2'', duration = 0\<rparr>,
            \<lparr>title = ''Half,done'', artist = [], album = [], duration = 0\<rparr>])"
    by simp
  from first second third fourth fifth sixth seventh show ?thesis
    by blast
qed

text \<open>
  C7 as stated fails for the empty text: nothing can be read, and the function returns 0,
  its failure value, which the main loop reports as a failed load.
\<close>

theorem load_playlist_csv_empty_file:
  "load_playlist_csv [song_a] (Some []) = (0, [song_a])"
  by (simp add: load_playlist_csv_def fgets_def)

section \<open>Sorting by duration\<close>

text \<open>
  Where no difference of two durations overflows, for instance when no duration is
  negative, the comparison function orders the durations and the sorted playlist is
  ascending.
\<close>

lemma sint_sub_nonneg:
  fixes a b :: "32 word"
  assumes "0 \<le> sint a" "0 \<le> sint b"
  shows "sint (a - b) = sint a - sint b"
proof -
  have "sint a < 2 ^ 31" "sint b < 2 ^ 31"
    using sint_lt [of a] sint_lt [of b] by simp_all
  with assms have "- (2 ^ 31) \<le> sint a - sint b" "sint a - sint b < 2 ^ 31"
    by simp_all
  then show ?thesis
    by (simp add: sint_word_ariths signed_take_bit_int_eq_self word_size)
qed

lemma set_qsort_merge: "set (qsort_merge cmp xs ys) = set xs \<union> set ys"
  by (induction cmp xs ys rule: qsort_merge.induct) auto

lemma mset_qsort_merge: "mset (qsort_merge cmp xs ys) = mset xs + mset ys"
  by (induction cmp xs ys rule: qsort_merge.induct) auto

lemma mset_qsort: "mset (qsort cmp xs) = mset xs"
proof (induction cmp xs rule: qsort.induct)
  case (1 cmp xs)
  show ?case
  proof (cases "length xs \<le> 1")
    case True
    then show ?thesis
      by (subst qsort.simps) simp
  next
    case False
    have "mset (qsort cmp xs)
            = mset (take (length xs div 2) xs) + mset (drop (length xs div 2) xs)"
      using False "1.IH" by (subst qsort.simps) (simp add: mset_qsort_merge)
    also have "\<dots> = mset (take (length xs div 2) xs @ drop (length xs div 2) xs)"
      by (simp only: mset_append)
    finally show ?thesis
      by simp
  qed
qed

lemma set_qsort: "set (qsort cmp xs) = set xs"
  using mset_qsort [of cmp xs] by (metis set_mset_mset)

lemma sorted_qsort_merge:
  assumes "\<forall>t\<in>set xs \<union> set ys. 0 \<le> sint (duration t)"
    and "sorted_wrt (\<lambda>a b. sint (duration a) \<le> sint (duration b)) xs"
    and "sorted_wrt (\<lambda>a b. sint (duration a) \<le> sint (duration b)) ys"
  shows "sorted_wrt (\<lambda>a b. sint (duration a) \<le> sint (duration b)) (qsort_merge cmp_duration xs ys)"
  using assms
proof (induction cmp_duration xs ys rule: qsort_merge.induct)
  case (1 ys)
  then show ?case by simp
next
  case (2 x xs)
  then show ?case by simp
next
  case (3 x xs y ys)
  from "3.prems"(1) have cmp: "sint (cmp_duration x y) = sint (duration x) - sint (duration y)"
    by (simp add: cmp_duration_def sint_sub_nonneg)
  show ?case
  proof (cases "sint (cmp_duration x y) \<le> 0")
    case True
    with cmp "3.prems" "3.hyps"(1) show ?thesis
      by (fastforce simp: set_qsort_merge)
  next
    case False
    with cmp "3.prems" "3.hyps"(2) show ?thesis
      by (fastforce simp: set_qsort_merge)
  qed
qed

lemma sort_by_duration_sorted:
  assumes "\<forall>t\<in>set pl. 0 \<le> sint (duration t)"
  shows "sorted_wrt (\<lambda>a b. sint (duration a) \<le> sint (duration b)) (sort_by_duration pl)"
  unfolding sort_by_duration_def using assms
proof (induction cmp_duration pl rule: qsort.induct)
  case (1 xs)
  show ?case
  proof (cases "length xs \<le> 1")
    case True
    then have "qsort cmp_duration xs = xs"
      by (subst qsort.simps) simp
    moreover from True have "sorted_wrt (\<lambda>a b. sint (duration a) \<le> sint (duration b)) xs"
      by (cases xs) (auto simp: le_Suc_eq)
    ultimately show ?thesis
      by simp
  next
    case False
    let ?l = "take (length xs div 2) xs" and ?r = "drop (length xs div 2) xs"
    have parts: "\<forall>t\<in>set ?l. 0 \<le> sint (duration t)" "\<forall>t\<in>set ?r. 0 \<le> sint (duration t)"
      using "1.prems" by (auto dest: in_set_takeD in_set_dropD)
    have "sorted_wrt (\<lambda>a b. sint (duration a) \<le> sint (duration b))
            (qsort_merge cmp_duration (qsort cmp_duration ?l) (qsort cmp_duration ?r))"
      using False parts "1.hyps"
      by (intro sorted_qsort_merge) (auto simp: set_qsort)
    then show ?thesis
      using False by (subst qsort.simps) simp
  qed
qed

lemma sort_by_duration_four:
  "map duration
     (sort_by_duration
        [late_track, early_track, song_a\<lparr>duration := 5\<rparr>, song_b\<lparr>duration := 5\<rparr>])
     = [5, 5, 2000000000, - 2000000000]"
proof -
  have halves: "length [late_track, early_track, song_a\<lparr>duration := 5\<rparr>, song_b\<lparr>duration := 5\<rparr>] div 2 = 2"
    by simp
  show ?thesis
    unfolding sort_by_duration_def
    by (simp add: qsort.simps [of _ "[a, b, c, d]" for a b c d] qsort.simps [of _ "[a, b]" for a b]
          qsort.simps [of _ "[a]" for a] cmp_duration_def late_track_def early_track_def)
qed

text \<open>
  C5: the comparison function subtracts two \<^verbatim>\<open>int\<close> values.  The loader accepts the
  durations 2000000000 and -2000000000; their difference does not fit an \<^verbatim>\<open>int\<close>: it
  wraps to a negative number, so the comparison reports the larger duration as the
  smaller one, and sorting leaves it first: the adjacent pair is not in ascending order.
\<close>

theorem sort_by_duration_overflow:
  "load_record [] ''Late,X,Y,2000000000'' = [late_track]
   \<and> load_record [late_track] ''Early,X,Y,-2000000000'' = [late_track, early_track]
   \<and> sort_by_duration [late_track, early_track] = [late_track, early_track]
   \<and> sint (duration late_track) = 2000000000
   \<and> sint (duration early_track) = - 2000000000
   \<and> sint (cmp_duration late_track early_track) = - 294967296"
proof -
  have late: "atoi ''2000000000'' = 2000000000" and early: "atoi ''-2000000000'' = - 2000000000"
    by (simp_all add: atoi_def strtol_def LONG_MAX_def LONG_MIN_def isspace_def isdigit_def
          digit_val_def)
  have "load_record [] ''Late,X,Y,2000000000'' = [late_track]"
    using load_record_fields(4) [of "''Late''" "''X''" "''Y''" "''2000000000''" "[]"]
    by (simp add: plain_field_def MAX_LINE_def late add_track_def late_track_def)
  moreover have "load_record [late_track] ''Early,X,Y,-2000000000'' = [late_track, early_track]"
    using load_record_fields(4) [of "''Early''" "''X''" "''Y''" "''-2000000000''" "[late_track]"]
    by (simp add: plain_field_def MAX_LINE_def early add_track_def early_track_def)
  moreover have "sort_by_duration [late_track, early_track] = [late_track, early_track]
      \<and> sint (duration late_track) = 2000000000
      \<and> sint (duration early_track) = - 2000000000
      \<and> sint (cmp_duration late_track early_track) = - 294967296"
    by (simp add: sort_by_duration_def qsort.simps [of _ "[a, b]" for a b]
          qsort.simps [of _ "[a]" for a] cmp_duration_def late_track_def early_track_def)
  ultimately show ?thesis
    by blast
qed

end
